theory Spec2Isabelle
  imports
    Main
    "HOL-Library.AList"
    "HOL-Library.Char_ord"
    "HOL-Library.List_Lexorder"
    "HOL-Library.Product_Lexorder"
begin

section \<open>Data model of NavigationScenesReducer.js\<close>

text \<open>
  JavaScript objects have an identity that \<^verbatim>\<open>===\<close> compares. Every object whose
  identity the reducer or a property of it can observe (routes, navigation states, scenes
  and the scene array) carries an identity token \<open>oid\<close>; \<^verbatim>\<open>a === b\<close> on two
  objects is equality of the records, token included, so two objects with the same fields
  and different tokens are different references. Object literals evaluated by the reducer
  take their token from an allocation counter that is passed in and returned; the counter
  stands for the engine's allocator, which never hands out an identity that is in use.

  Strings are \<open>string\<close> with the order of \<open>Char_ord\<close> and \<open>List_Lexorder\<close>: the
  lexicographic order by character code, which is what \<^verbatim>\<open>one > two\<close> computes on
  JavaScript strings, and \<open>length\<close> counts the characters as \<^verbatim>\<open>.length\<close> does (keys
  are taken over 8-bit characters). Scene indices are \<open>int\<close> (the Flow type is
  \<^verbatim>\<open>number\<close>; non-integral numbers and NaN are outside the model). The payload a
  route may carry besides its key is never read by the reducer and is left out; the
  identity token tells apart two routes with the same key.
\<close>

type_synonym oid = nat

record NavigationRoute =
  route_oid :: oid
  key :: string

record NavigationState =
  state_oid :: oid
  children :: "NavigationRoute list"

record NavigationScene =
  scene_oid :: oid
  index :: int
  isStale :: bool
  key :: string
  route :: NavigationRoute

record 'a Array =
  array_oid :: oid
  elems :: "'a list"

text \<open>
  The failure of \<^verbatim>\<open>invariant(...)\<close>: the exception carries the position and the key
  that its message prints.
\<close>

datatype error = Invariant_Violation nat string

text \<open>
  A JavaScript \<^verbatim>\<open>Map\<close> keeps its entries in insertion order: \<^verbatim>\<open>set\<close> on a key that
  is present replaces the value in place, on a new key it appends
  (\<^const>\<open>AList.update\<close>); \<^verbatim>\<open>delete\<close> removes the entry (\<^const>\<open>AList.delete\<close>);
  \<^verbatim>\<open>has\<close> and \<^verbatim>\<open>get\<close> are \<^const>\<open>map_of\<close>; \<^verbatim>\<open>forEach\<close> visits the entries
  in list order.
\<close>

type_synonym 'v Map = "(string \<times> 'v) list"

definition SCENE_KEY_PREFIX :: string where
  "SCENE_KEY_PREFIX = ''scene_''"

section \<open>The comparators and the equality predicate\<close>

definition compareKey :: "string \<Rightarrow> string \<Rightarrow> int" where
  "compareKey one two =
     (let delta = int (length one) - int (length two) in
      if delta > 0 then 1
      else if delta < 0 then - 1
      else if one > two then 1 else - 1)"

definition compareScenes :: "NavigationScene \<Rightarrow> NavigationScene \<Rightarrow> int" where
  "compareScenes one two =
     (if index one > index two then 1
      else if index one < index two then - 1
      else compareKey (key one) (key two))"

definition areScenesShallowEqual :: "NavigationScene \<Rightarrow> NavigationScene \<Rightarrow> bool" where
  "areScenesShallowEqual one two \<longleftrightarrow>
     key one = key two \<and>
     index one = index two \<and>
     isStale one = isStale two \<and>
     route one = route two \<and>
     NavigationRoute.key (route one) = NavigationRoute.key (route two)"

section \<open>Array.prototype.sort\<close>

text \<open>
  The engine's \<^verbatim>\<open>sort\<close> is not part of the repository. It is modelled as a stable
  insertion sort that asks the comparison function whether an element belongs after
  another one (a positive result). The reducer sorts scenes with pairwise distinct keys,
  and on those \<open>compareScenes\<close> admits a single sorted arrangement
  (\<open>Array_sort_compareScenes_unique\<close> below), so the choice of the algorithm does not
  show in the reducer's result.
\<close>

fun insert_by :: "('a \<Rightarrow> 'a \<Rightarrow> int) \<Rightarrow> 'a \<Rightarrow> 'a list \<Rightarrow> 'a list" where
  "insert_by compareFn x [] = [x]"
| "insert_by compareFn x (y # ys) =
     (if compareFn x y > 0 then y # insert_by compareFn x ys else x # y # ys)"

definition Array_sort :: "('a \<Rightarrow> 'a \<Rightarrow> int) \<Rightarrow> 'a list \<Rightarrow> 'a list" where
  "Array_sort compareFn xs = foldr (insert_by compareFn) xs []"

definition Map_forEach :: "('acc \<Rightarrow> 'v \<Rightarrow> 'acc) \<Rightarrow> 'v Map \<Rightarrow> 'acc \<Rightarrow> 'acc" where
  "Map_forEach callback m acc = foldl callback acc (map snd m)"

section \<open>NavigationScenesReducer\<close>

text \<open>Lines 85-91: the loop over the previous scenes fills \<open>prevScenes\<close> and \<open>staleScenes\<close>.\<close>

fun scenes_forEach ::
  "NavigationScene list \<Rightarrow> NavigationScene Map \<times> NavigationScene Map \<Rightarrow>
   NavigationScene Map \<times> NavigationScene Map" where
  "scenes_forEach [] (prevScenes, staleScenes) = (prevScenes, staleScenes)"
| "scenes_forEach (scene # rest) (prevScenes, staleScenes) =
     scenes_forEach rest
       (AList.update (key scene) scene prevScenes,
        if isStale scene then AList.update (key scene) scene staleScenes else staleScenes)"

text \<open>
  Lines 94-115: the loop over \<^verbatim>\<open>nextState.children\<close>. The arguments are the rest of the
  children, the position \<open>i\<close> of its first element, \<open>nextKeys\<close>, \<open>staleScenes\<close>,
  \<open>freshScenes\<close> and the allocation counter. The scene literal is evaluated before
  the invariant is checked; a failed invariant ends the call.
\<close>

fun nextChildren_forEach ::
  "NavigationRoute list \<Rightarrow> nat \<Rightarrow> string set \<Rightarrow> NavigationScene Map \<Rightarrow> NavigationScene Map \<Rightarrow> oid \<Rightarrow>
   error + (NavigationScene Map \<times> NavigationScene Map \<times> oid)" where
  "nextChildren_forEach [] i nextKeys staleScenes freshScenes heap =
     Inr (staleScenes, freshScenes, heap)"
| "nextChildren_forEach (r # rest) i nextKeys staleScenes freshScenes heap =
     (let k = SCENE_KEY_PREFIX @ NavigationRoute.key r;
          scene = \<lparr>scene_oid = heap, index = int i, isStale = False, key = k, route = r\<rparr>
      in if k \<in> nextKeys then Inl (Invariant_Violation i k)
         else nextChildren_forEach rest (Suc i) (insert k nextKeys)
                (if map_of staleScenes k \<noteq> None then AList.delete k staleScenes else staleScenes)
                (AList.update k scene freshScenes)
                (Suc heap))"

text \<open>
  Lines 119-130: the loop over \<^verbatim>\<open>prevState.children\<close>; a child whose key is fresh is
  skipped, every other one is stored as a stale scene under its key.
\<close>

fun prevChildren_forEach ::
  "NavigationRoute list \<Rightarrow> nat \<Rightarrow> NavigationScene Map \<Rightarrow> NavigationScene Map \<Rightarrow> oid \<Rightarrow>
   NavigationScene Map \<times> oid" where
  "prevChildren_forEach [] i freshScenes staleScenes heap = (staleScenes, heap)"
| "prevChildren_forEach (r # rest) i freshScenes staleScenes heap =
     (let k = SCENE_KEY_PREFIX @ NavigationRoute.key r in
      if map_of freshScenes k \<noteq> None
      then prevChildren_forEach rest (Suc i) freshScenes staleScenes heap
      else prevChildren_forEach rest (Suc i) freshScenes
             (AList.update k \<lparr>scene_oid = heap, index = int i, isStale = True, key = k, route = r\<rparr>
                staleScenes)
             (Suc heap))"

text \<open>
  Lines 80-131 together: the three maps as they stand when the merge starts, with the
  allocation counter, or the invariant's failure.
\<close>

definition scene_maps ::
  "oid \<Rightarrow> NavigationScene list \<Rightarrow> NavigationState \<Rightarrow> NavigationState option \<Rightarrow>
   error + (NavigationScene Map \<times> NavigationScene Map \<times> NavigationScene Map \<times> oid)" where
  "scene_maps heap scenes nextState prevState =
     (case scenes_forEach scenes ([], []) of
        (prevScenes, staleScenes0) \<Rightarrow>
          (case nextChildren_forEach (children nextState) 0 {} staleScenes0 [] heap of
             Inl e \<Rightarrow> Inl e
           | Inr (staleScenes1, freshScenes, heap1) \<Rightarrow>
               (case prevState of
                  None \<Rightarrow> Inr (prevScenes, freshScenes, staleScenes1, heap1)
                | Some p \<Rightarrow>
                    (case prevChildren_forEach (children p) 0 freshScenes staleScenes1 heap1 of
                       (staleScenes2, heap2) \<Rightarrow> Inr (prevScenes, freshScenes, staleScenes2, heap2)))))"

text \<open>Lines 135-145: \<^verbatim>\<open>mergeScene\<close> pushes the previous scene or the candidate.\<close>

definition mergeScene ::
  "NavigationScene Map \<Rightarrow> NavigationScene list \<Rightarrow> NavigationScene \<Rightarrow> NavigationScene list" where
  "mergeScene prevScenes nextScenes nextScene =
     (case map_of prevScenes (key nextScene) of
        Some prevScene \<Rightarrow>
          if areScenesShallowEqual prevScene nextScene
          then nextScenes @ [prevScene]
          else nextScenes @ [nextScene]
      | None \<Rightarrow> nextScenes @ [nextScene])"

text \<open>
  The reducer. The first argument is the allocation counter; a successful call returns
  the scene array and the counter after the call. The array of the slow path is the one
  allocated at line 133, which \<^verbatim>\<open>sort\<close> sorts in place and returns.
\<close>

definition NavigationScenesReducer ::
  "oid \<Rightarrow> NavigationScene Array \<Rightarrow> NavigationState \<Rightarrow> NavigationState option \<Rightarrow>
   error + (NavigationScene Array \<times> oid)" where
  "NavigationScenesReducer heap scenes nextState prevState =
     (if prevState = Some nextState then Inr (scenes, heap)
      else
        (case scene_maps heap (elems scenes) nextState prevState of
           Inl e \<Rightarrow> Inl e
         | Inr (prevScenes, freshScenes, staleScenes, heap') \<Rightarrow>
             (let nextScenes =
                    Map_forEach (mergeScene prevScenes) freshScenes
                      (Map_forEach (mergeScene prevScenes) staleScenes [])
              in Inr (\<lparr>array_oid = heap', elems = Array_sort compareScenes nextScenes\<rparr>,
                      Suc heap'))))"

section \<open>Vocabulary of the proofs\<close>

text \<open>The scene key that lines 95 and 120 derive from a route.\<close>

definition sceneKey :: "NavigationRoute \<Rightarrow> string" where
  "sceneKey r = SCENE_KEY_PREFIX @ NavigationRoute.key r"

text \<open>
  The entries that the loop over \<^verbatim>\<open>nextState.children\<close> appends to \<open>freshScenes\<close>
  when no key repeats: one scene per child, in order.
\<close>

fun fresh_entries :: "NavigationRoute list \<Rightarrow> nat \<Rightarrow> oid \<Rightarrow> NavigationScene Map" where
  "fresh_entries [] i heap = []"
| "fresh_entries (r # rest) i heap =
     (sceneKey r, \<lparr>scene_oid = heap, index = int i, isStale = False, key = sceneKey r, route = r\<rparr>)
       # fresh_entries rest (Suc i) (Suc heap)"

text \<open>
  What is left of the stale scenes of the previous scene list after the loop over
  \<^verbatim>\<open>nextState.children\<close> has revived the ones whose key is fresh.
\<close>

definition carried_stale :: "NavigationScene list \<Rightarrow> NavigationState \<Rightarrow> NavigationScene Map" where
  "carried_stale scenes nextState =
     filter (\<lambda>p. fst p \<notin> sceneKey ` set (children nextState)) (snd (scenes_forEach scenes ([], [])))"

text \<open>The scene that \<open>mergeScene\<close> pushes for a candidate.\<close>

definition merged :: "NavigationScene Map \<Rightarrow> NavigationScene \<Rightarrow> NavigationScene" where
  "merged prevScenes nextScene =
     (case map_of prevScenes (key nextScene) of
        Some prevScene \<Rightarrow> if areScenesShallowEqual prevScene nextScene then prevScene else nextScene
      | None \<Rightarrow> nextScene)"

text \<open>
  \<open>compareScenes\<close> orders scenes by index, then by the length of the key, then by the
  key: it is positive exactly when the first scene's triple is the greater one.
\<close>

definition scene_rank :: "NavigationScene \<Rightarrow> int \<times> nat \<times> string" where
  "scene_rank s = (index s, length (key s), key s)"

text \<open>
  \<open>compareScenes\<close> orders a list strictly and totally when of any two scenes at
  different positions exactly one comes before the other (a negative result), and coming
  before is transitive on the scenes of the list. The relation under \<open>sorted_wrt\<close> is
  symmetric, so it is asked of every pair of different positions.
\<close>

definition strict_total_order_on :: "NavigationScene list \<Rightarrow> bool" where
  "strict_total_order_on xs \<longleftrightarrow>
     sorted_wrt (\<lambda>a b. (compareScenes a b < 0) \<noteq> (compareScenes b a < 0)) xs \<and>
     (\<forall>a\<in>set xs. \<forall>b\<in>set xs. \<forall>c\<in>set xs.
        compareScenes a b < 0 \<and> compareScenes b c < 0 \<longrightarrow> compareScenes a c < 0)"

section \<open>Facts about the model\<close>

subsection \<open>The comparators and the sort\<close>

lemma compareKey_pos_iff:
  "compareKey one two > 0 \<longleftrightarrow> (length two, two) < (length one, one)"
  by (auto simp: compareKey_def Let_def less_prod_def)

lemma compareScenes_pos_iff:
  "compareScenes one two > 0 \<longleftrightarrow> scene_rank two < scene_rank one"
  unfolding compareScenes_def scene_rank_def
  using compareKey_pos_iff [of "key one" "key two"]
  by (auto simp: less_prod_def)

lemma insert_by_compareScenes:
  "insert_by compareScenes x ys = insort_key scene_rank x ys"
  by (induction ys) (auto simp: compareScenes_pos_iff not_less)

lemma Array_sort_compareScenes:
  "Array_sort compareScenes xs = sort_key scene_rank xs"
proof -
  have "insert_by compareScenes = insort_key scene_rank"
    by (intro ext) (rule insert_by_compareScenes)
  then show ?thesis
    by (simp add: Array_sort_def sort_key_def)
qed

lemma compareKey_values: "compareKey one two = 1 \<or> compareKey one two = - 1"
  by (simp add: compareKey_def Let_def)

lemma compareScenes_values: "compareScenes one two = 1 \<or> compareScenes one two = - 1"
  using compareKey_values [of "key one" "key two"] by (simp add: compareScenes_def)

subsection \<open>Map operations\<close>

lemma update_fresh_key: "k \<notin> fst ` set m \<Longrightarrow> AList.update k v m = m @ [(k, v)]"
  by (induction m) auto

lemma delete_if_has: "(if map_of m k \<noteq> None then AList.delete k m else m) = AList.delete k m"
  by (simp add: map_of_eq_None_iff)

lemma find_append:
  "find P (xs @ ys) = (case find P xs of None \<Rightarrow> find P ys | Some x \<Rightarrow> Some x)"
  by (induction xs) auto

subsection \<open>The loop over the previous scenes\<close>

lemma scenes_forEach_distinct:
  "scenes_forEach xs (P, S) = (P', S') \<Longrightarrow> distinct (map fst P) \<Longrightarrow> distinct (map fst S) \<Longrightarrow>
   distinct (map fst P') \<and> distinct (map fst S')"
  by (induction xs arbitrary: P S) (auto simp: distinct_update split: if_splits)

lemma scenes_forEach_prev:
  "scenes_forEach xs (P, S) = (P', S') \<Longrightarrow>
   map_of P' k = (case find (\<lambda>s. key s = k) (rev xs) of Some s \<Rightarrow> Some s | None \<Rightarrow> map_of P k)"
proof (induction xs arbitrary: P S)
  case Nil
  then show ?case by simp
next
  case (Cons x xs)
  then show ?case
    by (auto simp: find_append update_conv' split: option.splits if_splits)
qed

lemma scenes_forEach_stale:
  "scenes_forEach xs (P, S) = (P', S') \<Longrightarrow>
   map_of S' k =
     (case find (\<lambda>s. key s = k \<and> isStale s) (rev xs) of Some s \<Rightarrow> Some s | None \<Rightarrow> map_of S k)"
proof (induction xs arbitrary: P S)
  case Nil
  then show ?case by simp
next
  case (Cons x xs)
  then show ?case
    by (auto simp: find_append update_conv' split: option.splits if_splits)
qed

subsection \<open>The loop over the next children\<close>

lemma fresh_entries_keys: "map fst (fresh_entries rs i h) = map sceneKey rs"
  by (induction rs arbitrary: i h) auto

lemma fresh_entries_length: "length (fresh_entries rs i h) = length rs"
  by (induction rs arbitrary: i h) auto

lemma fresh_entries_nth:
  "j < length rs \<Longrightarrow>
   fresh_entries rs i h ! j =
     (sceneKey (rs ! j),
      \<lparr>scene_oid = h + j, index = int (i + j), isStale = False, key = sceneKey (rs ! j),
         route = rs ! j\<rparr>)"
proof (induction rs arbitrary: i h j)
  case Nil
  then show ?case by simp
next
  case (Cons r rs)
  then show ?case by (cases j) auto
qed

lemma nextChildren_forEach_step:
  "nextChildren_forEach (r # rest) i NK S F h =
     (if sceneKey r \<in> NK then Inl (Invariant_Violation i (sceneKey r))
      else nextChildren_forEach rest (Suc i) (insert (sceneKey r) NK)
             (AList.delete (sceneKey r) S)
             (AList.update (sceneKey r)
                \<lparr>scene_oid = h, index = int i, isStale = False, key = sceneKey r, route = r\<rparr> F)
             (Suc h))"
  unfolding nextChildren_forEach.simps Let_def delete_if_has sceneKey_def ..

lemma nextChildren_forEach_Inr:
  "distinct (map sceneKey rs) \<Longrightarrow> sceneKey ` set rs \<inter> NK = {} \<Longrightarrow> fst ` set F \<subseteq> NK \<Longrightarrow>
   nextChildren_forEach rs i NK S F h =
     Inr (filter (\<lambda>p. fst p \<notin> sceneKey ` set rs) S, F @ fresh_entries rs i h, h + length rs)"
proof (induction rs arbitrary: i NK S F h)
  case Nil
  then show ?case by simp
next
  case (Cons r rs)
  let ?k = "sceneKey r"
  let ?scene = "\<lparr>scene_oid = h, index = int i, isStale = False, key = ?k, route = r\<rparr>"
  from Cons.prems have k: "?k \<notin> NK" and kF: "?k \<notin> fst ` set F" by auto
  have upd: "AList.update ?k ?scene F = F @ [(?k, ?scene)]"
    using kF by (rule update_fresh_key)
  have rec: "nextChildren_forEach rs (Suc i) (insert ?k NK) (AList.delete ?k S)
               (F @ [(?k, ?scene)]) (Suc h) =
             Inr (filter (\<lambda>p. fst p \<notin> sceneKey ` set rs) (AList.delete ?k S),
                  (F @ [(?k, ?scene)]) @ fresh_entries rs (Suc i) (Suc h), Suc h + length rs)"
    using Cons.prems by (intro Cons.IH) auto
  have flt: "filter (\<lambda>p. fst p \<notin> sceneKey ` set rs) (AList.delete ?k S) =
             filter (\<lambda>p. fst p \<notin> sceneKey ` set (r # rs)) S"
    by (auto simp: AList.delete_eq intro: filter_cong)
  show ?case
    using k rec by (simp add: nextChildren_forEach_step upd flt del: nextChildren_forEach.simps)
qed

lemma nextChildren_forEach_Inl:
  "\<not> (distinct (map sceneKey rs) \<and> sceneKey ` set rs \<inter> NK = {}) \<Longrightarrow>
   \<exists>j k. nextChildren_forEach rs i NK S F h = Inl (Invariant_Violation j k)"
proof (induction rs arbitrary: i NK S F h)
  case Nil
  then show ?case by simp
next
  case (Cons r rs)
  show ?case
  proof (cases "sceneKey r \<in> NK")
    case True
    then show ?thesis by (simp add: nextChildren_forEach_step del: nextChildren_forEach.simps)
  next
    case False
    with Cons.prems
    have "\<not> (distinct (map sceneKey rs) \<and> sceneKey ` set rs \<inter> insert (sceneKey r) NK = {})"
      by auto
    from Cons.IH [OF this] False show ?thesis
      by (simp add: nextChildren_forEach_step del: nextChildren_forEach.simps)
  qed
qed

subsection \<open>The loop over the previous children\<close>

lemma prevChildren_forEach_step:
  "prevChildren_forEach (r # rest) i F S h =
     (if map_of F (sceneKey r) \<noteq> None then prevChildren_forEach rest (Suc i) F S h
      else prevChildren_forEach rest (Suc i) F
             (AList.update (sceneKey r)
                \<lparr>scene_oid = h, index = int i, isStale = True, key = sceneKey r, route = r\<rparr> S)
             (Suc h))"
  unfolding prevChildren_forEach.simps Let_def sceneKey_def ..

declare prevChildren_forEach.simps(2) [simp del] nextChildren_forEach.simps(2) [simp del]

lemma prevChildren_forEach_distinct:
  "distinct (map fst S) \<Longrightarrow> distinct (map fst (fst (prevChildren_forEach rs i F S h)))"
  by (induction rs arbitrary: i S h) (simp_all add: prevChildren_forEach_step distinct_update)

lemma prevChildren_forEach_dom:
  "fst ` set (fst (prevChildren_forEach rs i F S h)) =
     fst ` set S \<union> {k \<in> sceneKey ` set rs. map_of F k = None}"
  by (induction rs arbitrary: i S h) (auto simp: prevChildren_forEach_step dom_update)

lemma prevChildren_forEach_unchanged:
  "k \<notin> sceneKey ` set rs \<or> map_of F k \<noteq> None \<Longrightarrow>
   map_of (fst (prevChildren_forEach rs i F S h)) k = map_of S k"
  by (induction rs arbitrary: i S h) (auto simp: prevChildren_forEach_step update_conv')

lemma prevChildren_forEach_entry:
  "map_of (fst (prevChildren_forEach rs i F S h)) k = Some s \<Longrightarrow>
   map_of S k = Some s \<or> (key s = k \<and> isStale s \<and> h \<le> scene_oid s \<and> map_of F k = None)"
proof (induction rs arbitrary: i S h)
  case Nil
  then show ?case by simp
next
  case (Cons r rs)
  show ?case
  proof (cases "map_of F (sceneKey r) \<noteq> None")
    case True
    with Cons show ?thesis by (simp add: prevChildren_forEach_step)
  next
    case False
    let ?S = "AList.update (sceneKey r)
                \<lparr>scene_oid = h, index = int i, isStale = True, key = sceneKey r, route = r\<rparr> S"
    from Cons.prems False
    have "map_of (fst (prevChildren_forEach rs (Suc i) F ?S (Suc h))) k = Some s"
      by (simp add: prevChildren_forEach_step)
    from Cons.IH [OF this] False show ?thesis
      by (auto simp: update_conv' split: if_splits)
  qed
qed

lemma prevChildren_forEach_last:
  "i0 < length rs \<Longrightarrow> sceneKey (rs ! i0) = k \<Longrightarrow> map_of F k = None \<Longrightarrow>
   (\<forall>j. i0 < j \<and> j < length rs \<longrightarrow> sceneKey (rs ! j) \<noteq> k) \<Longrightarrow>
   \<exists>obj\<ge>h. map_of (fst (prevChildren_forEach rs i F S h)) k =
     Some \<lparr>scene_oid = obj, index = int (i + i0), isStale = True, key = k, route = rs ! i0\<rparr>"
proof (induction rs arbitrary: i i0 S h)
  case Nil
  then show ?case by simp
next
  case (Cons r rs)
  show ?case
  proof (cases i0)
    case 0
    let ?S = "AList.update k
                \<lparr>scene_oid = h, index = int i, isStale = True, key = k, route = r\<rparr> S"
    from Cons.prems 0 have r: "sceneKey r = k" by simp
    have "k \<notin> sceneKey ` set rs"
    proof
      assume "k \<in> sceneKey ` set rs"
      then obtain j where "j < length rs" "sceneKey (rs ! j) = k"
        by (auto simp: in_set_conv_nth)
      with Cons.prems(4) 0 show False by (auto dest: spec [of _ "Suc j"])
    qed
    then have "map_of (fst (prevChildren_forEach rs (Suc i) F ?S (Suc h))) k = map_of ?S k"
      by (intro prevChildren_forEach_unchanged) simp
    with Cons.prems(3) r 0 show ?thesis
      by (auto simp: prevChildren_forEach_step update_conv')
  next
    case (Suc j)
    with Cons.prems have j: "j < length rs" "sceneKey (rs ! j) = k"
      and last: "\<forall>l. j < l \<and> l < length rs \<longrightarrow> sceneKey (rs ! l) \<noteq> k"
      by (auto dest: spec [of _ "Suc _"])
    have *: "\<exists>obj\<ge>h'. map_of (fst (prevChildren_forEach rs (Suc i) F S' h')) k =
       Some \<lparr>scene_oid = obj, index = int (Suc i + j), isStale = True, key = k, route = rs ! j\<rparr>"
      for S' h'
      using j Cons.prems(3) last by (rule Cons.IH)
    show ?thesis
    proof (cases "map_of F (sceneKey r) \<noteq> None")
      case True
      with * [of h S] Suc show ?thesis by (simp add: prevChildren_forEach_step)
    next
      case False
      let ?S = "AList.update (sceneKey r)
                  \<lparr>scene_oid = h, index = int i, isStale = True, key = sceneKey r, route = r\<rparr> S"
      from * [of "Suc h" ?S] obtain obj where "Suc h \<le> obj"
        "map_of (fst (prevChildren_forEach rs (Suc i) F ?S (Suc h))) k =
         Some \<lparr>scene_oid = obj, index = int (Suc i + j), isStale = True, key = k, route = rs ! j\<rparr>"
        by blast
      with False Suc show ?thesis
        by (intro exI [of _ obj]) (simp add: prevChildren_forEach_step)
    qed
  qed
qed

subsection \<open>The merge\<close>

lemma Map_forEach_mergeScene:
  "Map_forEach (mergeScene P) m acc = acc @ map (merged P) (map snd m)"
  unfolding Map_forEach_def
  by (induction m arbitrary: acc) (auto simp: mergeScene_def merged_def split: option.splits)

lemma merged_fields:
  "key (merged P c) = key c" "index (merged P c) = index c"
  "isStale (merged P c) = isStale c" "route (merged P c) = route c"
  by (auto simp: merged_def areScenesShallowEqual_def split: option.splits)

lemma merged_reuse:
  "map_of P (key c) = Some p \<Longrightarrow> areScenesShallowEqual p c \<Longrightarrow> merged P c = p"
  by (simp add: merged_def)

lemma merged_cases:
  "merged P c = c \<or> (\<exists>p. map_of P (key c) = Some p \<and> areScenesShallowEqual p c \<and> merged P c = p)"
  by (auto simp: merged_def split: option.splits)

subsection \<open>The maps at merge time\<close>

lemma distinct_sceneKey: "distinct (map sceneKey rs) \<longleftrightarrow> distinct (map NavigationRoute.key rs)"
  by (induction rs) (auto simp: sceneKey_def)

lemma sceneKey_image: "sceneKey r \<in> sceneKey ` set rs \<longleftrightarrow> NavigationRoute.key r \<in> NavigationRoute.key ` set rs"
  by (auto simp: sceneKey_def)

lemma scene_maps_distinct:
  assumes "distinct (map sceneKey (children ns))"
  shows "scene_maps h scenes ns ps =
     Inr (fst (scenes_forEach scenes ([], [])),
          fresh_entries (children ns) 0 h,
          (case ps of
             None \<Rightarrow> carried_stale scenes ns
           | Some p \<Rightarrow> fst (prevChildren_forEach (children p) 0 (fresh_entries (children ns) 0 h)
                         (carried_stale scenes ns) (h + length (children ns)))),
          (case ps of
             None \<Rightarrow> h + length (children ns)
           | Some p \<Rightarrow> snd (prevChildren_forEach (children p) 0 (fresh_entries (children ns) 0 h)
                         (carried_stale scenes ns) (h + length (children ns)))))"
proof -
  obtain P S0 where l1: "scenes_forEach scenes ([], []) = (P, S0)"
    by (cases "scenes_forEach scenes ([], [])")
  have l2: "nextChildren_forEach (children ns) 0 {} S0 [] h =
      Inr (carried_stale scenes ns, fresh_entries (children ns) 0 h, h + length (children ns))"
    using nextChildren_forEach_Inr [OF assms, of "{}" "[]" 0 S0 h] l1
    by (simp add: carried_stale_def)
  show ?thesis
    by (simp add: scene_maps_def l1 l2 split: option.splits prod.splits)
qed

lemma scene_maps_duplicate:
  assumes "\<not> distinct (map sceneKey (children ns))"
  shows "\<exists>j k. scene_maps h scenes ns ps = Inl (Invariant_Violation j k)"
proof -
  obtain P S0 where l1: "scenes_forEach scenes ([], []) = (P, S0)"
    by (cases "scenes_forEach scenes ([], [])")
  from assms obtain j k where
    "nextChildren_forEach (children ns) 0 {} S0 [] h = Inl (Invariant_Violation j k)"
    using nextChildren_forEach_Inl [of "children ns" "{}" 0 S0 "[]" h] by auto
  then show ?thesis
    by (simp add: scene_maps_def l1)
qed

lemma scene_maps_InrD:
  assumes "scene_maps h scenes ns ps = Inr (P, F, S, h')"
  shows "distinct (map sceneKey (children ns))"
    and "P = fst (scenes_forEach scenes ([], []))"
    and "F = fresh_entries (children ns) 0 h"
    and "S = (case ps of
             None \<Rightarrow> carried_stale scenes ns
           | Some p \<Rightarrow> fst (prevChildren_forEach (children p) 0 F
                         (carried_stale scenes ns) (h + length (children ns))))"
proof -
  show d: "distinct (map sceneKey (children ns))"
    using assms scene_maps_duplicate [of ns h scenes ps] by auto
  from scene_maps_distinct [OF d, of h scenes ps] assms
  show "P = fst (scenes_forEach scenes ([], []))" and F: "F = fresh_entries (children ns) 0 h"
    by simp_all
  from scene_maps_distinct [OF d, of h scenes ps] assms
  show "S = (case ps of
             None \<Rightarrow> carried_stale scenes ns
           | Some p \<Rightarrow> fst (prevChildren_forEach (children p) 0 F
                         (carried_stale scenes ns) (h + length (children ns))))"
    unfolding F by simp
qed

lemma prevScenes_lookup:
  "map_of (fst (scenes_forEach scenes ([], []))) k = find (\<lambda>s. key s = k) (rev scenes)"
proof -
  obtain P S0 where l1: "scenes_forEach scenes ([], []) = (P, S0)"
    by (cases "scenes_forEach scenes ([], [])")
  from scenes_forEach_prev [OF l1, of k] l1 show ?thesis
    by (simp split: option.splits)
qed

lemma carried_stale_lookup:
  "map_of (carried_stale scenes ns) k =
     (if k \<in> sceneKey ` set (children ns) then None
      else find (\<lambda>s. key s = k \<and> isStale s) (rev scenes))"
proof -
  obtain P S0 where l1: "scenes_forEach scenes ([], []) = (P, S0)"
    by (cases "scenes_forEach scenes ([], [])")
  have "map_of (filter (\<lambda>p. fst p \<notin> A) S0) k = (if k \<in> A then None else map_of S0 k)" for A
    by (induction S0) auto
  with scenes_forEach_stale [OF l1, of k] l1 show ?thesis
    by (simp add: carried_stale_def split: option.splits)
qed

lemma carried_stale_distinct: "distinct (map fst (carried_stale scenes ns))"
proof -
  obtain P S0 where l1: "scenes_forEach scenes ([], []) = (P, S0)"
    by (cases "scenes_forEach scenes ([], [])")
  from scenes_forEach_distinct [OF l1] have "distinct (map fst S0)" by simp
  with l1 show ?thesis
    by (simp add: carried_stale_def distinct_map_filter)
qed

lemma find_SomeD: "find Q xs = Some x \<Longrightarrow> Q x \<and> x \<in> set xs"
  by (induction xs) (auto split: if_splits)

lemma stale_distinct:
  assumes "scene_maps h scenes ns ps = Inr (P, F, S, h')"
  shows "distinct (map fst S)"
  unfolding scene_maps_InrD(4) [OF assms]
  by (simp add: carried_stale_distinct prevChildren_forEach_distinct split: option.splits)

lemma fresh_distinct:
  assumes "scene_maps h scenes ns ps = Inr (P, F, S, h')"
  shows "distinct (map fst F)"
  using scene_maps_InrD(1,3) [OF assms] by (simp add: fresh_entries_keys)

lemma fresh_lookup_None:
  "map_of (fresh_entries rs i h) k = None \<longleftrightarrow> k \<notin> sceneKey ` set rs"
  using fresh_entries_keys [of rs i h]
  by (metis list.set_map map_of_eq_None_iff)

lemma stale_fresh_disjoint:
  assumes "scene_maps h scenes ns ps = Inr (P, F, S, h')"
  shows "fst ` set S \<inter> fst ` set F = {}"
proof -
  have F: "fst ` set F = sceneKey ` set (children ns)"
    using fresh_entries_keys [of "children ns" 0 h] scene_maps_InrD(3) [OF assms]
    by (metis list.set_map)
  have c: "fst ` set (carried_stale scenes ns) \<inter> sceneKey ` set (children ns) = {}"
    by (auto simp: carried_stale_def)
  show ?thesis
  proof (cases ps)
    case None
    with scene_maps_InrD(4) [OF assms] c F show ?thesis by simp
  next
    case (Some p)
    with scene_maps_InrD(4) [OF assms]
    have "fst ` set S = fst ` set (carried_stale scenes ns) \<union>
            {k \<in> sceneKey ` set (children p). map_of F k = None}"
      by (simp add: prevChildren_forEach_dom)
    moreover have "map_of F k = None \<longleftrightarrow> k \<notin> sceneKey ` set (children ns)" for k
      unfolding scene_maps_InrD(3) [OF assms] by (rule fresh_lookup_None)
    ultimately show ?thesis using c F by auto
  qed
qed

lemma stale_entry:
  assumes "scene_maps h scenes ns ps = Inr (P, F, S, h')" and "(k, s) \<in> set S"
  shows "key s = k \<and> isStale s \<and> (s \<in> set scenes \<or> h \<le> scene_oid s)"
proof -
  from assms stale_distinct [OF assms(1)] have look: "map_of S k = Some s" by simp
  have carried: "key s = k \<and> isStale s \<and> s \<in> set scenes"
    if "map_of (carried_stale scenes ns) k = Some s"
    using that by (auto simp: carried_stale_lookup dest!: find_SomeD split: if_splits)
  show ?thesis
  proof (cases ps)
    case None
    with scene_maps_InrD(4) [OF assms(1)] look carried show ?thesis by simp
  next
    case (Some p)
    with scene_maps_InrD(4) [OF assms(1)] look
    have "map_of (fst (prevChildren_forEach (children p) 0 F
                         (carried_stale scenes ns) (h + length (children ns)))) k = Some s"
      by simp
    from prevChildren_forEach_entry [OF this] carried show ?thesis by auto
  qed
qed

lemma fresh_entry:
  assumes "scene_maps h scenes ns ps = Inr (P, F, S, h')" and "(k, s) \<in> set F"
  shows "\<exists>i<length (children ns). k = sceneKey (children ns ! i) \<and>
     s = \<lparr>scene_oid = h + i, index = int i, isStale = False, key = k, route = children ns ! i\<rparr>"
proof -
  from assms(2) obtain i where "i < length F" "F ! i = (k, s)"
    by (auto simp: in_set_conv_nth)
  then show ?thesis
    unfolding scene_maps_InrD(3) [OF assms(1)]
    by (auto simp: fresh_entries_length fresh_entries_nth)
qed

subsection \<open>The slow path in closed form\<close>

lemma reducer_slow:
  assumes "ps \<noteq> Some ns" and "scene_maps h (elems scenes) ns ps = Inr (P, F, S, h')"
  shows "NavigationScenesReducer h scenes ns ps =
     Inr (\<lparr>array_oid = h',
            elems = sort_key scene_rank (map (merged P) (map snd S @ map snd F))\<rparr>, Suc h')"
  using assms
  by (simp add: NavigationScenesReducer_def Map_forEach_mergeScene Array_sort_compareScenes)

lemma reducer_slow_InrD:
  assumes "NavigationScenesReducer h scenes ns ps = Inr (out, h'')" and "ps \<noteq> Some ns"
  obtains P F S h' where "scene_maps h (elems scenes) ns ps = Inr (P, F, S, h')"
    and "elems out = sort_key scene_rank (map (merged P) (map snd S @ map snd F))"
    and "array_oid out = h'" and "h'' = Suc h'"
proof (cases "scene_maps h (elems scenes) ns ps")
  case (Inl e)
  with assms show ?thesis by (simp add: NavigationScenesReducer_def)
next
  case (Inr x)
  obtain P F S h' where x: "x = (P, F, S, h')" by (cases x)
  from reducer_slow [OF assms(2) Inr [unfolded x]] assms(1) that Inr x
  show ?thesis by auto
qed

lemma merged_keys:
  assumes "scene_maps h scenes ns ps = Inr (P, F, S, h')"
  shows "map key (map (merged P) (map snd S @ map snd F)) = map fst (S @ F)"
proof -
  have "key (snd e) = fst e" if "e \<in> set S" for e
    using stale_entry [OF assms, of "fst e" "snd e"] that by simp
  moreover have "key (snd e) = fst e" if "e \<in> set F" for e
    using fresh_entry [OF assms, of "fst e" "snd e"] that by auto
  ultimately show ?thesis
    by (auto simp: merged_fields)
qed

lemma merged_keys_distinct:
  assumes "scene_maps h scenes ns ps = Inr (P, F, S, h')"
  shows "distinct (map key (map (merged P) (map snd S @ map snd F)))"
  unfolding merged_keys [OF assms]
  using stale_distinct [OF assms] fresh_distinct [OF assms] stale_fresh_disjoint [OF assms]
  by auto

subsection \<open>List facts\<close>

lemma filter_key_singleton:
  "distinct (map f xs) \<Longrightarrow> x \<in> set xs \<Longrightarrow> filter (\<lambda>y. f y = f x) xs = [x]"
proof (induction xs)
  case Nil
  then show ?case by simp
next
  case (Cons a xs)
  show ?case
  proof (cases "x = a")
    case True
    from Cons.prems have "\<forall>y\<in>set xs. f y \<noteq> f a"
      by (metis distinct.simps(2) imageI list.simps(9) list.set_map)
    then have "filter (\<lambda>y. f y = f a) xs = []"
      by (simp add: filter_empty_conv)
    with True show ?thesis by simp
  next
    case False
    with Cons show ?thesis by auto
  qed
qed

lemma find_last_distinct:
  "distinct (map f xs) \<Longrightarrow> x \<in> set xs \<Longrightarrow> Q x \<Longrightarrow>
   find (\<lambda>y. f y = f x \<and> Q y) (rev xs) = Some x"
proof (induction xs)
  case Nil
  then show ?case by simp
next
  case (Cons a xs)
  show ?case
  proof (cases "x = a")
    case True
    from Cons.prems have "\<forall>y\<in>set xs. f y \<noteq> f a"
      by (metis distinct.simps(2) imageI list.simps(9) list.set_map)
    then have "find (\<lambda>y. f y = f a \<and> Q y) (rev xs) = None"
      by (auto simp: find_None_iff)
    with True Cons.prems show ?thesis by (simp add: find_append)
  next
    case False
    with Cons show ?thesis by (auto simp: find_append)
  qed
qed

lemma distinct_map_sort_key:
  "distinct (map f (sort_key g xs)) \<longleftrightarrow> distinct (map f xs)"
  by (simp add: distinct_map)

subsection \<open>Output facts\<close>

lemma output_keys_distinct:
  assumes "NavigationScenesReducer h scenes ns ps = Inr (out, h')" and "ps \<noteq> Some ns"
  shows "distinct (map key (elems out))"
proof -
  from assms obtain P F S h1 where
    m: "scene_maps h (elems scenes) ns ps = Inr (P, F, S, h1)" and
    out: "elems out = sort_key scene_rank (map (merged P) (map snd S @ map snd F))"
    by (rule reducer_slow_InrD)
  show ?thesis
    unfolding out distinct_map_sort_key by (rule merged_keys_distinct [OF m])
qed

lemma output_unique_key:
  assumes m: "scene_maps h (elems scenes) ns ps = Inr (P, F, S, h1)"
    and out: "elems out = sort_key scene_rank (map (merged P) (map snd S @ map snd F))"
    and c: "c \<in> snd ` set (S @ F)"
  shows "filter (\<lambda>y. key y = key c) (elems out) = [merged P c]"
proof -
  let ?xs = "map (merged P) (map snd S @ map snd F)"
  have "merged P c \<in> set ?xs" using c by auto
  with merged_keys_distinct [OF m]
  have "filter (\<lambda>y. key y = key (merged P c)) ?xs = [merged P c]"
    by (rule filter_key_singleton)
  then show ?thesis
    by (simp add: out filter_sort merged_fields)
qed

lemma fresh_scenes_of_route:
  assumes "distinct (map sceneKey rs)" and "i < length rs"
  shows "filter (\<lambda>c. route c = rs ! i) (map snd (fresh_entries rs j h)) =
         [snd (fresh_entries rs j h ! i)]"
proof -
  let ?cs = "map snd (fresh_entries rs j h)"
  have routes: "map route ?cs = rs"
    by (induction rs arbitrary: j h) auto
  from assms(1) have "distinct rs"
    by (simp add: distinct_map)
  with routes have d: "distinct (map route ?cs)" by simp
  have len: "length ?cs = length rs" by (simp add: fresh_entries_length)
  with assms(2) have mem: "?cs ! i \<in> set ?cs" by (metis nth_mem)
  have "route (?cs ! i) = rs ! i"
    using assms(2) by (simp add: fresh_entries_length fresh_entries_nth)
  with filter_key_singleton [OF d mem] have "filter (\<lambda>c. route c = rs ! i) ?cs = [?cs ! i]"
    by simp
  with assms(2) show ?thesis by (simp add: fresh_entries_length)
qed

subsection \<open>The order of the output\<close>

lemma scene_rank_less:
  "scene_rank a < scene_rank b \<longleftrightarrow>
     index a < index b \<or>
     index a = index b \<and>
       (length (key a) < length (key b) \<or> length (key a) = length (key b) \<and> key a < key b)"
  by (auto simp: scene_rank_def less_prod_def)

lemma compareScenes_neg_iff:
  "compareScenes one two < 0 \<longleftrightarrow> scene_rank one \<le> scene_rank two"
  using compareScenes_values [of one two] compareScenes_pos_iff [of one two]
  by auto

lemma scene_rank_inj_key: "scene_rank a = scene_rank b \<Longrightarrow> key a = key b"
  by (simp add: scene_rank_def)

lemma output_strictly_sorted:
  assumes "NavigationScenesReducer h scenes ns ps = Inr (out, h')" and "ps \<noteq> Some ns"
  shows "sorted_wrt (\<lambda>a b. scene_rank a < scene_rank b) (elems out)"
proof -
  from assms obtain P F S h1 where
    "scene_maps h (elems scenes) ns ps = Inr (P, F, S, h1)" and
    out: "elems out = sort_key scene_rank (map (merged P) (map snd S @ map snd F))"
    by (rule reducer_slow_InrD)
  have "distinct (map key (elems out))"
    using assms by (rule output_keys_distinct)
  then have "distinct (map scene_rank (elems out))"
    by (auto simp: distinct_map inj_on_def dest: scene_rank_inj_key)
  moreover have "sorted (map scene_rank (elems out))"
    unfolding out by (rule sorted_sort_key)
  ultimately have "sorted_wrt (<) (map scene_rank (elems out))"
    by (simp add: strict_sorted_iff)
  then show ?thesis
    by (simp add: sorted_wrt_map)
qed

lemma compareScenes_trans:
  "compareScenes a b < 0 \<Longrightarrow> compareScenes b c < 0 \<Longrightarrow> compareScenes a c < 0"
  by (auto simp: compareScenes_neg_iff)

lemma compareScenes_asym_iff:
  "(compareScenes a b < 0) \<noteq> (compareScenes b a < 0) \<longleftrightarrow> (index a, key a) \<noteq> (index b, key b)"
proof -
  have "scene_rank a = scene_rank b \<longleftrightarrow> (index a, key a) = (index b, key b)"
    by (auto simp: scene_rank_def)
  moreover have "(compareScenes a b < 0) \<noteq> (compareScenes b a < 0) \<longleftrightarrow> scene_rank a \<noteq> scene_rank b"
    by (auto simp: compareScenes_neg_iff)
  ultimately show ?thesis by simp
qed

lemma sorted_wrt_neq_distinct:
  "sorted_wrt (\<lambda>a b. f a \<noteq> f b) xs \<longleftrightarrow> distinct (map f xs)"
  by (induction xs) auto

lemma strict_total_order_on_iff:
  "strict_total_order_on xs \<longleftrightarrow> distinct (map (\<lambda>s. (index s, key s)) xs)"
proof -
  have "sorted_wrt (\<lambda>a b. (compareScenes a b < 0) \<noteq> (compareScenes b a < 0)) xs \<longleftrightarrow>
        sorted_wrt (\<lambda>a b. (index a, key a) \<noteq> (index b, key b)) xs"
    by (simp only: compareScenes_asym_iff)
  also have "\<dots> \<longleftrightarrow> distinct (map (\<lambda>s. (index s, key s)) xs)"
    by (rule sorted_wrt_neq_distinct)
  finally show ?thesis
    unfolding strict_total_order_on_def using compareScenes_trans by blast
qed

text \<open>
  The sorted arrangement is unique: a list with the same scenes in which every scene
  compares negative with each later one, and each later one positive with it, is the
  list the sort returns. No comparison sort can arrange the merged scenes differently.
\<close>

lemma Array_sort_compareScenes_unique:
  assumes "distinct (map key xs)"
    and "set ys = set xs"
    and "sorted_wrt (\<lambda>a b. compareScenes a b < 0 \<and> compareScenes b a > 0) ys"
  shows "ys = Array_sort compareScenes xs"
proof -
  let ?zs = "sort_key scene_rank xs"
  have inj: "inj_on scene_rank (set xs)"
    using assms(1) by (auto simp: distinct_map inj_on_def dest: scene_rank_inj_key)
  have "sorted_wrt (\<lambda>a b. scene_rank a < scene_rank b) ys"
    using assms(3) by (rule sorted_wrt_mono_rel [rotated]) (simp add: compareScenes_pos_iff)
  then have ys: "sorted_wrt (<) (map scene_rank ys)"
    by (simp add: sorted_wrt_map)
  have "distinct (map scene_rank ?zs)"
    using assms(1) inj by (simp add: distinct_map)
  moreover have "sorted (map scene_rank ?zs)"
    by (rule sorted_sort_key)
  moreover have "set (map scene_rank ys) = set (map scene_rank ?zs)"
    using assms(2) by simp
  ultimately have "map scene_rank ys = map scene_rank ?zs"
    using ys by (intro sorted_distinct_set_unique) (simp_all add: strict_sorted_iff)
  moreover have "inj_on scene_rank (set ys \<union> set ?zs)"
    using inj assms(2) by simp
  ultimately have "ys = ?zs"
    by (simp add: inj_on_map_eq_map)
  then show ?thesis
    by (simp add: Array_sort_compareScenes)
qed

section \<open>The claims\<close>

text \<open>
  Claim C1 (completeness). When the keys of \<^verbatim>\<open>nextState.children\<close> are pairwise
  distinct and \<^verbatim>\<open>prevState\<close> is not the same reference as \<^verbatim>\<open>nextState\<close>, the
  reducer returns, and for the route at every position \<open>i\<close> of \<^verbatim>\<open>nextState.children\<close>
  the returned list holds exactly one scene that is not stale and whose route is that
  route; its index is \<open>i\<close> and its key is \<^verbatim>\<open>"scene_"\<close> followed by the route's key.
\<close>

theorem C1_completeness:
  assumes "distinct (map NavigationRoute.key (children nextState))"
    and "prevState \<noteq> Some nextState"
    and "i < length (children nextState)"
  shows "\<exists>out heap' s.
     NavigationScenesReducer heap scenes nextState prevState = Inr (out, heap') \<and>
     filter (\<lambda>x. \<not> isStale x \<and> route x = children nextState ! i) (elems out) = [s] \<and>
     index s = int i \<and>
     key s = ''scene_'' @ NavigationRoute.key (children nextState ! i)"
proof -
  let ?rs = "children nextState"
  let ?Q = "\<lambda>x. \<not> isStale x \<and> route x = ?rs ! i"
  from assms(1) have d: "distinct (map sceneKey ?rs)" by (simp add: distinct_sceneKey)
  from scene_maps_distinct [OF d, of heap "elems scenes" prevState]
  obtain P F S h1 where m: "scene_maps heap (elems scenes) nextState prevState = Inr (P, F, S, h1)"
    by blast
  note F = scene_maps_InrD(3) [OF m]
  let ?c = "snd (F ! i)"
  let ?out = "\<lparr>array_oid = h1,
      elems = sort_key scene_rank (map (merged P) (map snd S @ map snd F))\<rparr>"
  have red: "NavigationScenesReducer heap scenes nextState prevState = Inr (?out, Suc h1)"
    using assms(2) m by (rule reducer_slow)
  have stale: "filter (\<lambda>c. ?Q (merged P c)) (map snd S) = []"
    using stale_entry [OF m] by (auto simp: filter_empty_conv merged_fields)
  have "\<not> isStale c" if "c \<in> set (map snd F)" for c
    using that fresh_entry [OF m] by fastforce
  then have "filter (\<lambda>c. ?Q (merged P c)) (map snd F) = filter (\<lambda>c. route c = ?rs ! i) (map snd F)"
    by (intro filter_cong) (auto simp: merged_fields)
  also have "\<dots> = [?c]"
    unfolding F using d assms(3) by (rule fresh_scenes_of_route)
  finally have fresh: "filter (\<lambda>c. ?Q (merged P c)) (map snd F) = [?c]" .
  have "filter ?Q (map (merged P) (map snd S @ map snd F)) =
        map (merged P) (filter (\<lambda>c. ?Q (merged P c)) (map snd S)) @
        map (merged P) (filter (\<lambda>c. ?Q (merged P c)) (map snd F))"
    by (simp add: filter_map comp_def)
  also have "\<dots> = [merged P ?c]"
    unfolding stale fresh by simp
  finally have "filter ?Q (elems ?out) = [merged P ?c]"
    by (simp add: filter_sort)
  moreover have "index (merged P ?c) = int i" "key (merged P ?c) = sceneKey (?rs ! i)"
    using assms(3) by (simp_all add: merged_fields F fresh_entries_nth)
  ultimately show ?thesis
    using red by (auto simp: sceneKey_def SCENE_KEY_PREFIX_def)
qed

theorem C1_completeness_witness:
  "distinct (map NavigationRoute.key
      (children \<lparr>state_oid = 10, children = [\<lparr>route_oid = 1, key = ''a''\<rparr>, \<lparr>route_oid = 2, key = ''b''\<rparr>]\<rparr>)) \<and>
   (None :: NavigationState option) \<noteq>
     Some \<lparr>state_oid = 10, children = [\<lparr>route_oid = 1, key = ''a''\<rparr>, \<lparr>route_oid = 2, key = ''b''\<rparr>]\<rparr> \<and>
   (\<exists>out heap' s.
     NavigationScenesReducer 100 \<lparr>array_oid = 50, elems = []\<rparr>
       \<lparr>state_oid = 10, children = [\<lparr>route_oid = 1, key = ''a''\<rparr>, \<lparr>route_oid = 2, key = ''b''\<rparr>]\<rparr>
       None = Inr (out, heap') \<and>
     filter (\<lambda>x. \<not> isStale x \<and> route x = \<lparr>route_oid = 2, key = ''b''\<rparr>) (elems out) = [s] \<and>
     index s = 1 \<and> key s = ''scene_b'')"
  using C1_completeness [of "\<lparr>state_oid = 10, children = [\<lparr>route_oid = 1, key = ''a''\<rparr>, \<lparr>route_oid = 2, key = ''b''\<rparr>]\<rparr>"
      None 1 100 "\<lparr>array_oid = 50, elems = []\<rparr>"]
  by simp

text \<open>
  Claim C2 (duplicate key rejection), as amended. When \<^verbatim>\<open>prevState\<close> is not the same
  reference as \<^verbatim>\<open>nextState\<close> and two children of \<^verbatim>\<open>nextState\<close>, adjacent or not,
  have equal keys, the invariant fails and no scene list is returned; when the keys of the
  children are pairwise distinct, a result is returned. On the fast path
  (\<^verbatim>\<open>prevState === nextState\<close>) the children are never inspected, so duplicate keys
  do not make the call fail there.
\<close>

theorem C2_duplicate_key_rejection:
  "(prevState \<noteq> Some nextState \<and> i < j \<and> j < length (children nextState) \<and>
    NavigationRoute.key (children nextState ! i) = NavigationRoute.key (children nextState ! j) \<longrightarrow>
      (\<exists>n k. NavigationScenesReducer heap scenes nextState prevState =
         Inl (Invariant_Violation n k))) \<and>
   (distinct (map NavigationRoute.key (children nextState)) \<longrightarrow>
      (\<exists>out heap'. NavigationScenesReducer heap scenes nextState prevState = Inr (out, heap')))"
proof (intro conjI impI)
  assume a: "prevState \<noteq> Some nextState \<and> i < j \<and> j < length (children nextState) \<and>
    NavigationRoute.key (children nextState ! i) = NavigationRoute.key (children nextState ! j)"
  then have "i < length (map NavigationRoute.key (children nextState))"
    "j < length (map NavigationRoute.key (children nextState))" "i \<noteq> j"
    "map NavigationRoute.key (children nextState) ! i =
     map NavigationRoute.key (children nextState) ! j"
    by simp_all
  then have "\<not> distinct (map NavigationRoute.key (children nextState))"
    by (metis nth_eq_iff_index_eq)
  then have "\<not> distinct (map sceneKey (children nextState))"
    by (simp add: distinct_sceneKey)
  from scene_maps_duplicate [OF this, of heap "elems scenes" prevState] a
  show "\<exists>n k. NavigationScenesReducer heap scenes nextState prevState =
         Inl (Invariant_Violation n k)"
    by (auto simp: NavigationScenesReducer_def)
next
  assume "distinct (map NavigationRoute.key (children nextState))"
  then have d: "distinct (map sceneKey (children nextState))"
    by (simp add: distinct_sceneKey)
  from scene_maps_distinct [OF d, of heap "elems scenes" prevState]
  show "\<exists>out heap'. NavigationScenesReducer heap scenes nextState prevState = Inr (out, heap')"
    by (auto simp: NavigationScenesReducer_def)
qed

theorem C2_duplicate_key_rejection_witness:
  "(\<exists>n k. NavigationScenesReducer 100 \<lparr>array_oid = 50, elems = []\<rparr>
     \<lparr>state_oid = 10, children = [\<lparr>route_oid = 1, key = ''a''\<rparr>, \<lparr>route_oid = 2, key = ''b''\<rparr>, \<lparr>route_oid = 3, key = ''a''\<rparr>]\<rparr>
     None = Inl (Invariant_Violation n k)) \<and>
   (\<exists>out heap'. NavigationScenesReducer 100 \<lparr>array_oid = 50, elems = []\<rparr>
     \<lparr>state_oid = 10, children = [\<lparr>route_oid = 1, key = ''a''\<rparr>, \<lparr>route_oid = 2, key = ''b''\<rparr>]\<rparr>
     None = Inr (out, heap'))"
  using
    C2_duplicate_key_rejection [of None
      "\<lparr>state_oid = 10, children = [\<lparr>route_oid = 1, key = ''a''\<rparr>, \<lparr>route_oid = 2, key = ''b''\<rparr>, \<lparr>route_oid = 3, key = ''a''\<rparr>]\<rparr>"
      0 2 100 "\<lparr>array_oid = 50, elems = []\<rparr>"]
    C2_duplicate_key_rejection [of None
      "\<lparr>state_oid = 10, children = [\<lparr>route_oid = 1, key = ''a''\<rparr>, \<lparr>route_oid = 2, key = ''b''\<rparr>]\<rparr>"
      0 0 100 "\<lparr>array_oid = 50, elems = []\<rparr>"]
  by simp

text \<open>
  The state below has two children with the key \<^verbatim>\<open>"a"\<close>; passed as both
  \<^verbatim>\<open>nextState\<close> and \<^verbatim>\<open>prevState\<close>, the call returns the scene array it was given.
\<close>

theorem C2_counterexample:
  "NavigationScenesReducer 100 \<lparr>array_oid = 50, elems = []\<rparr>
     \<lparr>state_oid = 10, children = [\<lparr>route_oid = 1, key = ''a''\<rparr>, \<lparr>route_oid = 2, key = ''a''\<rparr>]\<rparr>
     (Some \<lparr>state_oid = 10, children = [\<lparr>route_oid = 1, key = ''a''\<rparr>, \<lparr>route_oid = 2, key = ''a''\<rparr>]\<rparr>) =
   Inr (\<lparr>array_oid = 50, elems = []\<rparr>, 100)"
  by code_simp

text \<open>
  Claim C3 (ordering), as amended. Every call that returns by the slow path
  (\<^verbatim>\<open>prevState\<close> is not the same reference as \<^verbatim>\<open>nextState\<close>) returns a list sorted
  ascending by index, and of two scenes with equal index the one with the shorter key
  comes first, or for keys of equal length the lexicographically smaller one: each scene
  compares as \<open>-1\<close> with every later scene and every later scene as \<open>1\<close> with it.
  In particular a scene keyed \<^verbatim>\<open>"scene_9"\<close> precedes a scene keyed \<^verbatim>\<open>"scene_11"\<close>
  with the same index. The fast path returns the given array as it is, sorted or not.
\<close>

theorem C3_ordering:
  assumes "NavigationScenesReducer heap scenes nextState prevState = Inr (out, heap')"
    and "prevState \<noteq> Some nextState"
  shows "sorted_wrt
       (\<lambda>a b. index a < index b \<or>
          index a = index b \<and>
            (length (key a) < length (key b) \<or>
             length (key a) = length (key b) \<and> key a < key b))
       (elems out) \<and>
     sorted_wrt (\<lambda>a b. compareScenes a b = - 1 \<and> compareScenes b a = 1) (elems out) \<and>
     (\<forall>m n. m < length (elems out) \<and> n < length (elems out) \<and>
        index (elems out ! m) = index (elems out ! n) \<and>
        key (elems out ! m) = ''scene_9'' \<and> key (elems out ! n) = ''scene_11'' \<longrightarrow> m < n)"
proof -
  note s = output_strictly_sorted [OF assms]
  have 1: "sorted_wrt
       (\<lambda>a b. index a < index b \<or>
          index a = index b \<and>
            (length (key a) < length (key b) \<or>
             length (key a) = length (key b) \<and> key a < key b))
       (elems out)"
    using s by (simp add: scene_rank_less)
  have cmp: "compareScenes a b = - 1 \<and> compareScenes b a = 1" if "scene_rank a < scene_rank b" for a b
    using that compareScenes_values [of a b] compareScenes_values [of b a]
      compareScenes_pos_iff [of a b] compareScenes_pos_iff [of b a]
    by auto
  have 2: "sorted_wrt (\<lambda>a b. compareScenes a b = - 1 \<and> compareScenes b a = 1) (elems out)"
    using s by (rule sorted_wrt_mono_rel [rotated]) (simp add: cmp)
  have 3: "m < n"
    if "m < length (elems out)" "n < length (elems out)"
      "index (elems out ! m) = index (elems out ! n)"
      "key (elems out ! m) = ''scene_9''" "key (elems out ! n) = ''scene_11''" for m n
  proof (rule ccontr)
    assume "\<not> m < n"
    with that(4,5) have "n < m" by (cases "m = n") auto
    with s that(1) have "scene_rank (elems out ! n) < scene_rank (elems out ! m)"
      by (simp add: sorted_wrt_iff_nth_less)
    with that(3,4,5) show False by (simp add: scene_rank_less)
  qed
  from 1 2 3 show ?thesis by blast
qed

theorem C3_ordering_witness:
  "NavigationScenesReducer 100
     \<lparr>array_oid = 50, elems = []\<rparr>
     \<lparr>state_oid = 11, children = [\<lparr>route_oid = 2, key = ''11''\<rparr>]\<rparr>
     (Some \<lparr>state_oid = 10, children = [\<lparr>route_oid = 1, key = ''9''\<rparr>]\<rparr>) =
   Inr (\<lparr>array_oid = 102, elems =
        [\<lparr>scene_oid = 101, index = 0, isStale = True, key = ''scene_9'', route = \<lparr>route_oid = 1, key = ''9''\<rparr>\<rparr>,
         \<lparr>scene_oid = 100, index = 0, isStale = False, key = ''scene_11'', route = \<lparr>route_oid = 2, key = ''11''\<rparr>\<rparr>]\<rparr>, 103) \<and>
   Some \<lparr>state_oid = 10, children = [\<lparr>route_oid = 1, key = ''9''\<rparr>]\<rparr> \<noteq> Some \<lparr>state_oid = 11, children = [\<lparr>route_oid = 2, key = ''11''\<rparr>]\<rparr> \<and>
   sorted_wrt (\<lambda>a b. compareScenes a b = - 1 \<and> compareScenes b a = 1)
     [\<lparr>scene_oid = 101, index = 0, isStale = True, key = ''scene_9'', route = \<lparr>route_oid = 1, key = ''9''\<rparr>\<rparr>,
      \<lparr>scene_oid = 100, index = 0, isStale = False, key = ''scene_11'', route = \<lparr>route_oid = 2, key = ''11''\<rparr>\<rparr>] \<and>
   sorted_wrt
     (\<lambda>a b. index a < index b \<or>
        index a = index b \<and>
          (length (key a) < length (key b) \<or>
           length (key a) = length (key b) \<and> key a < key b))
     [\<lparr>scene_oid = 101, index = 0, isStale = True, key = ''scene_9'', route = \<lparr>route_oid = 1, key = ''9''\<rparr>\<rparr>,
      \<lparr>scene_oid = 100, index = 0, isStale = False, key = ''scene_11'', route = \<lparr>route_oid = 2, key = ''11''\<rparr>\<rparr>]"
proof -
  have run: "NavigationScenesReducer 100
     \<lparr>array_oid = 50, elems = []\<rparr>
     \<lparr>state_oid = 11, children = [\<lparr>route_oid = 2, key = ''11''\<rparr>]\<rparr>
     (Some \<lparr>state_oid = 10, children = [\<lparr>route_oid = 1, key = ''9''\<rparr>]\<rparr>) =
   Inr (\<lparr>array_oid = 102, elems =
        [\<lparr>scene_oid = 101, index = 0, isStale = True, key = ''scene_9'', route = \<lparr>route_oid = 1, key = ''9''\<rparr>\<rparr>,
         \<lparr>scene_oid = 100, index = 0, isStale = False, key = ''scene_11'', route = \<lparr>route_oid = 2, key = ''11''\<rparr>\<rparr>]\<rparr>, 103)"
    by code_simp
  have ne: "Some \<lparr>state_oid = 10, children = [\<lparr>route_oid = 1, key = ''9''\<rparr>]\<rparr> \<noteq> Some \<lparr>state_oid = 11, children = [\<lparr>route_oid = 2, key = ''11''\<rparr>]\<rparr>"
    by simp
  from C3_ordering [OF run ne] run ne show ?thesis by simp
qed

text \<open>
  On the fast path the given scene array comes back unchanged: here the scene with index
  1 stays before the scene with index 0.
\<close>

theorem C3_counterexample:
  "NavigationScenesReducer 100
     \<lparr>array_oid = 50, elems =
        [\<lparr>scene_oid = 31, index = 1, isStale = False, key = ''scene_b'', route = \<lparr>route_oid = 2, key = ''b''\<rparr>\<rparr>,
         \<lparr>scene_oid = 30, index = 0, isStale = False, key = ''scene_a'', route = \<lparr>route_oid = 1, key = ''a''\<rparr>\<rparr>]\<rparr>
     \<lparr>state_oid = 10, children = [\<lparr>route_oid = 1, key = ''a''\<rparr>, \<lparr>route_oid = 2, key = ''b''\<rparr>]\<rparr>
     (Some \<lparr>state_oid = 10, children = [\<lparr>route_oid = 1, key = ''a''\<rparr>, \<lparr>route_oid = 2, key = ''b''\<rparr>]\<rparr>) =
   Inr (\<lparr>array_oid = 50, elems =
        [\<lparr>scene_oid = 31, index = 1, isStale = False, key = ''scene_b'', route = \<lparr>route_oid = 2, key = ''b''\<rparr>\<rparr>,
         \<lparr>scene_oid = 30, index = 0, isStale = False, key = ''scene_a'', route = \<lparr>route_oid = 1, key = ''a''\<rparr>\<rparr>]\<rparr>, 100) \<and>
   \<not> sorted (map index
     [\<lparr>scene_oid = 31, index = 1, isStale = False, key = ''scene_b'', route = \<lparr>route_oid = 2, key = ''b''\<rparr>\<rparr>,
      \<lparr>scene_oid = 30, index = 0, isStale = False, key = ''scene_a'', route = \<lparr>route_oid = 1, key = ''a''\<rparr>\<rparr>])"
  by code_simp

text \<open>
  Claim C4 (identity preservation), as amended. In a call that returns by the slow path,
  let \<open>c\<close> be a candidate scene handed to the merge (an entry of the stale or of the
  fresh map when the merge starts) and let \<open>p\<close> be the last scene of the previous scene
  list that has the key of \<open>c\<close> (the scene that \<open>prevScenes\<close> holds under this key; the
  only one when the keys of the previous scenes are pairwise distinct). If \<open>p\<close> is
  shallow-equal to \<open>c\<close>, the output contains the object \<open>p\<close> itself, and it does not
  contain \<open>c\<close> when \<open>c\<close> is a newly built object (none of the previous scenes).
\<close>

theorem C4_identity_preservation:
  assumes "NavigationScenesReducer heap scenes nextState prevState = Inr (out, heap')"
    and "prevState \<noteq> Some nextState"
    and "scene_maps heap (elems scenes) nextState prevState =
           Inr (prevScenes, freshScenes, staleScenes, heap1)"
    and "c \<in> snd ` set (staleScenes @ freshScenes)"
    and "find (\<lambda>s. key s = key c) (rev (elems scenes)) = Some p"
    and "areScenesShallowEqual p c"
  shows "p \<in> set (elems out) \<and> (c \<notin> set (elems scenes) \<longrightarrow> c \<notin> set (elems out))"
proof -
  from assms(1,2) obtain P F S h1 where
    m: "scene_maps heap (elems scenes) nextState prevState = Inr (P, F, S, h1)" and
    out: "elems out = sort_key scene_rank (map (merged P) (map snd S @ map snd F))"
    by (rule reducer_slow_InrD)
  from m assms(3) have eq: "P = prevScenes" "F = freshScenes" "S = staleScenes" by simp_all
  from assms(4) have c: "c \<in> snd ` set (S @ F)" by (simp add: eq)
  have "map_of P (key c) = Some p"
    using assms(5) by (simp add: scene_maps_InrD(2) [OF m] prevScenes_lookup)
  then have p: "merged P c = p"
    using assms(6) by (rule merged_reuse)
  have only: "filter (\<lambda>y. key y = key c) (elems out) = [p]"
    using output_unique_key [OF m out c] p by simp
  then have "p \<in> set (filter (\<lambda>y. key y = key c) (elems out))" by simp
  then have 1: "p \<in> set (elems out)" by simp
  have 2: "c \<notin> set (elems out)" if "c \<notin> set (elems scenes)"
  proof
    assume "c \<in> set (elems out)"
    then have "c \<in> set (filter (\<lambda>y. key y = key c) (elems out))" by simp
    with only have "c = p" by simp
    moreover from assms(5) have "p \<in> set (elems scenes)"
      by (auto dest: find_SomeD)
    ultimately show False using that by simp
  qed
  from 1 2 show ?thesis by blast
qed

theorem C4_identity_preservation_witness:
  "NavigationScenesReducer 100
     \<lparr>array_oid = 50, elems =
        [\<lparr>scene_oid = 30, index = 0, isStale = False, key = ''scene_a'', route = \<lparr>route_oid = 1, key = ''a''\<rparr>\<rparr>]\<rparr>
     \<lparr>state_oid = 10, children = [\<lparr>route_oid = 1, key = ''a''\<rparr>]\<rparr>
     None =
   Inr (\<lparr>array_oid = 101, elems =
        [\<lparr>scene_oid = 30, index = 0, isStale = False, key = ''scene_a'', route = \<lparr>route_oid = 1, key = ''a''\<rparr>\<rparr>]\<rparr>, 102) \<and>
   areScenesShallowEqual
     \<lparr>scene_oid = 30, index = 0, isStale = False, key = ''scene_a'', route = \<lparr>route_oid = 1, key = ''a''\<rparr>\<rparr>
     \<lparr>scene_oid = 100, index = 0, isStale = False, key = ''scene_a'', route = \<lparr>route_oid = 1, key = ''a''\<rparr>\<rparr> \<and>
   \<lparr>scene_oid = 30, index = 0, isStale = False, key = ''scene_a'', route = \<lparr>route_oid = 1, key = ''a''\<rparr>\<rparr> \<in> set [\<lparr>scene_oid = 30, index = 0, isStale = False, key = ''scene_a'', route = \<lparr>route_oid = 1, key = ''a''\<rparr>\<rparr>] \<and>
   \<lparr>scene_oid = 100, index = 0, isStale = False, key = ''scene_a'', route = \<lparr>route_oid = 1, key = ''a''\<rparr>\<rparr> \<notin> set [\<lparr>scene_oid = 30, index = 0, isStale = False, key = ''scene_a'', route = \<lparr>route_oid = 1, key = ''a''\<rparr>\<rparr>]"
proof -
  have run: "NavigationScenesReducer 100
     \<lparr>array_oid = 50, elems =
        [\<lparr>scene_oid = 30, index = 0, isStale = False, key = ''scene_a'', route = \<lparr>route_oid = 1, key = ''a''\<rparr>\<rparr>]\<rparr>
     \<lparr>state_oid = 10, children = [\<lparr>route_oid = 1, key = ''a''\<rparr>]\<rparr>
     None =
   Inr (\<lparr>array_oid = 101, elems =
        [\<lparr>scene_oid = 30, index = 0, isStale = False, key = ''scene_a'', route = \<lparr>route_oid = 1, key = ''a''\<rparr>\<rparr>]\<rparr>, 102)"
    by code_simp
  have maps: "scene_maps 100
     (elems \<lparr>array_oid = 50, elems =
        [\<lparr>scene_oid = 30, index = 0, isStale = False, key = ''scene_a'', route = \<lparr>route_oid = 1, key = ''a''\<rparr>\<rparr>]\<rparr>)
     \<lparr>state_oid = 10, children = [\<lparr>route_oid = 1, key = ''a''\<rparr>]\<rparr>
     None =
   Inr ([(''scene_a'', \<lparr>scene_oid = 30, index = 0, isStale = False, key = ''scene_a'', route = \<lparr>route_oid = 1, key = ''a''\<rparr>\<rparr>)],
        [(''scene_a'', \<lparr>scene_oid = 100, index = 0, isStale = False, key = ''scene_a'', route = \<lparr>route_oid = 1, key = ''a''\<rparr>\<rparr>)],
        [], 101)"
    by code_simp
  have eq: "areScenesShallowEqual
     \<lparr>scene_oid = 30, index = 0, isStale = False, key = ''scene_a'', route = \<lparr>route_oid = 1, key = ''a''\<rparr>\<rparr>
     \<lparr>scene_oid = 100, index = 0, isStale = False, key = ''scene_a'', route = \<lparr>route_oid = 1, key = ''a''\<rparr>\<rparr>"
    by (simp add: areScenesShallowEqual_def)
  from C4_identity_preservation [OF run _ maps _ _ eq] run eq show ?thesis by simp
qed

text \<open>
  Two previous scenes share the key \<^verbatim>\<open>"scene_a"\<close> and both are shallow-equal to the
  candidate built for the route: the output holds the later one (identity 31), not the
  earlier one (identity 30).
\<close>

theorem C4_counterexample:
  "NavigationScenesReducer 100
     \<lparr>array_oid = 50, elems =
        [\<lparr>scene_oid = 30, index = 0, isStale = False, key = ''scene_a'', route = \<lparr>route_oid = 1, key = ''a''\<rparr>\<rparr>,
         \<lparr>scene_oid = 31, index = 0, isStale = False, key = ''scene_a'', route = \<lparr>route_oid = 1, key = ''a''\<rparr>\<rparr>]\<rparr>
     \<lparr>state_oid = 10, children = [\<lparr>route_oid = 1, key = ''a''\<rparr>]\<rparr>
     None =
   Inr (\<lparr>array_oid = 101, elems =
        [\<lparr>scene_oid = 31, index = 0, isStale = False, key = ''scene_a'', route = \<lparr>route_oid = 1, key = ''a''\<rparr>\<rparr>]\<rparr>, 102) \<and>
   areScenesShallowEqual
     \<lparr>scene_oid = 30, index = 0, isStale = False, key = ''scene_a'', route = \<lparr>route_oid = 1, key = ''a''\<rparr>\<rparr>
     \<lparr>scene_oid = 100, index = 0, isStale = False, key = ''scene_a'', route = \<lparr>route_oid = 1, key = ''a''\<rparr>\<rparr> \<and>
   \<lparr>scene_oid = 30, index = 0, isStale = False, key = ''scene_a'', route = \<lparr>route_oid = 1, key = ''a''\<rparr>\<rparr> \<notin> set [\<lparr>scene_oid = 31, index = 0, isStale = False, key = ''scene_a'', route = \<lparr>route_oid = 1, key = ''a''\<rparr>\<rparr>]"
  by code_simp

text \<open>
  Claim C5 (stale retention), as amended. For every route of
  \<^verbatim>\<open>previousState.children\<close> whose key is the key of no child of \<^verbatim>\<open>nextState\<close>, a
  call that returns has in its output exactly one scene with the route's derived key and
  \<open>isStale = true\<close>; its index is the position of the last child of
  \<^verbatim>\<open>previousState\<close> that has this key, and its route is that child. This is the route's
  own position when the keys of \<^verbatim>\<open>previousState.children\<close> are pairwise distinct.
\<close>

theorem C5_stale_retention:
  assumes "NavigationScenesReducer heap scenes nextState (Some prevState) = Inr (out, heap')"
    and "i < length (children prevState)"
    and "NavigationRoute.key (children prevState ! i) \<notin>
           NavigationRoute.key ` set (children nextState)"
    and "\<forall>j. i < j \<and> j < length (children prevState) \<longrightarrow>
           NavigationRoute.key (children prevState ! j) \<noteq> NavigationRoute.key (children prevState ! i)"
  shows "\<exists>s. filter (\<lambda>y. key y = ''scene_'' @ NavigationRoute.key (children prevState ! i) \<and> isStale y)
              (elems out) = [s] \<and>
            index s = int i \<and> route s = children prevState ! i"
proof -
  let ?rs = "children prevState"
  let ?k = "sceneKey (?rs ! i)"
  from assms(2,3) have ne: "Some prevState \<noteq> Some nextState"
    by (metis image_eqI nth_mem option.inject)
  from assms(1) ne obtain P F S h1 where
    m: "scene_maps heap (elems scenes) nextState (Some prevState) = Inr (P, F, S, h1)" and
    out: "elems out = sort_key scene_rank (map (merged P) (map snd S @ map snd F))"
    by (rule reducer_slow_InrD)
  note F = scene_maps_InrD(3) [OF m]
  from assms(3) have "?k \<notin> sceneKey ` set (children nextState)"
    by (simp add: sceneKey_image)
  then have none: "map_of F ?k = None"
    by (simp add: F fresh_lookup_None)
  have last: "\<forall>j. i < j \<and> j < length ?rs \<longrightarrow> sceneKey (?rs ! j) \<noteq> ?k"
    using assms(4) by (simp add: sceneKey_def)
  from prevChildren_forEach_last [OF assms(2) refl none last,
      of "heap + length (children nextState)" 0 "carried_stale (elems scenes) nextState"]
  obtain obj where "map_of S ?k =
      Some \<lparr>scene_oid = obj, index = int i, isStale = True, key = ?k, route = ?rs ! i\<rparr>"
    unfolding scene_maps_InrD(4) [OF m] by auto
  then have "(?k, \<lparr>scene_oid = obj, index = int i, isStale = True, key = ?k, route = ?rs ! i\<rparr>) \<in> set S"
    by (rule map_of_SomeD)
  then have c: "\<lparr>scene_oid = obj, index = int i, isStale = True, key = ?k, route = ?rs ! i\<rparr>
      \<in> snd ` set (S @ F)" (is "?c \<in> _")
    by force
  from output_unique_key [OF m out c]
  have only: "filter (\<lambda>y. key y = ?k) (elems out) = [merged P ?c]" by simp
  have "filter (\<lambda>y. key y = ?k \<and> isStale y) (elems out) =
        filter isStale (filter (\<lambda>y. key y = ?k) (elems out))"
    by (simp add: conj_commute)
  also have "\<dots> = [merged P ?c]"
    unfolding only by (simp add: merged_fields)
  finally show ?thesis
    by (auto simp: merged_fields sceneKey_def SCENE_KEY_PREFIX_def)
qed

theorem C5_stale_retention_witness:
  "NavigationScenesReducer 100
     \<lparr>array_oid = 50, elems = []\<rparr>
     \<lparr>state_oid = 11, children = [\<lparr>route_oid = 2, key = ''b''\<rparr>]\<rparr>
     (Some \<lparr>state_oid = 10, children = [\<lparr>route_oid = 1, key = ''a''\<rparr>, \<lparr>route_oid = 2, key = ''b''\<rparr>]\<rparr>) =
   Inr (\<lparr>array_oid = 102, elems =
        [\<lparr>scene_oid = 101, index = 0, isStale = True, key = ''scene_a'', route = \<lparr>route_oid = 1, key = ''a''\<rparr>\<rparr>,
         \<lparr>scene_oid = 100, index = 0, isStale = False, key = ''scene_b'', route = \<lparr>route_oid = 2, key = ''b''\<rparr>\<rparr>]\<rparr>, 103) \<and>
   NavigationRoute.key \<lparr>route_oid = 1, key = ''a''\<rparr> \<notin> NavigationRoute.key ` set [\<lparr>route_oid = 2, key = ''b''\<rparr>] \<and>
   (\<exists>s. filter (\<lambda>y. key y = ''scene_a'' \<and> isStale y)
          [\<lparr>scene_oid = 101, index = 0, isStale = True, key = ''scene_a'', route = \<lparr>route_oid = 1, key = ''a''\<rparr>\<rparr>,
      \<lparr>scene_oid = 100, index = 0, isStale = False, key = ''scene_b'', route = \<lparr>route_oid = 2, key = ''b''\<rparr>\<rparr>] = [s] \<and>
        index s = 0 \<and> route s = \<lparr>route_oid = 1, key = ''a''\<rparr>)"
proof -
  have run: "NavigationScenesReducer 100
     \<lparr>array_oid = 50, elems = []\<rparr>
     \<lparr>state_oid = 11, children = [\<lparr>route_oid = 2, key = ''b''\<rparr>]\<rparr>
     (Some \<lparr>state_oid = 10, children = [\<lparr>route_oid = 1, key = ''a''\<rparr>, \<lparr>route_oid = 2, key = ''b''\<rparr>]\<rparr>) =
   Inr (\<lparr>array_oid = 102, elems =
        [\<lparr>scene_oid = 101, index = 0, isStale = True, key = ''scene_a'', route = \<lparr>route_oid = 1, key = ''a''\<rparr>\<rparr>,
         \<lparr>scene_oid = 100, index = 0, isStale = False, key = ''scene_b'', route = \<lparr>route_oid = 2, key = ''b''\<rparr>\<rparr>]\<rparr>, 103)"
    by code_simp
  from C5_stale_retention [OF run, of 0] show ?thesis
    unfolding run by simp
qed

text \<open>
  Two children of the previous state share the key \<^verbatim>\<open>"a"\<close>, which the next state
  lacks: the one stale scene keyed \<^verbatim>\<open>"scene_a"\<close> has index 1 and the second child as
  its route, so for the child at position 0 the index is not its position.
\<close>

theorem C5_counterexample:
  "NavigationScenesReducer 100
     \<lparr>array_oid = 50, elems = []\<rparr>
     \<lparr>state_oid = 11, children = []\<rparr>
     (Some \<lparr>state_oid = 10, children = [\<lparr>route_oid = 1, key = ''a''\<rparr>, \<lparr>route_oid = 2, key = ''a''\<rparr>]\<rparr>) =
   Inr (\<lparr>array_oid = 102, elems =
        [\<lparr>scene_oid = 101, index = 1, isStale = True, key = ''scene_a'', route = \<lparr>route_oid = 2, key = ''a''\<rparr>\<rparr>]\<rparr>, 103) \<and>
   filter (\<lambda>y. key y = ''scene_a'' \<and> isStale y)
     [\<lparr>scene_oid = 101, index = 1, isStale = True, key = ''scene_a'', route = \<lparr>route_oid = 2, key = ''a''\<rparr>\<rparr>] =
     [\<lparr>scene_oid = 101, index = 1, isStale = True, key = ''scene_a'', route = \<lparr>route_oid = 2, key = ''a''\<rparr>\<rparr>] \<and>
   index \<lparr>scene_oid = 101, index = 1, isStale = True, key = ''scene_a'', route = \<lparr>route_oid = 2, key = ''a''\<rparr>\<rparr> \<noteq> 0"
  by code_simp

text \<open>
  Claim C6 (revival), as amended. In a call that returns by the slow path
  (\<^verbatim>\<open>prevState\<close> is not the same reference as \<^verbatim>\<open>nextState\<close>), if the previous scene
  list contains a stale scene whose key is the derived key of a child \<open>r\<close> of
  \<^verbatim>\<open>nextState\<close>, the output contains exactly one scene with that key; it is not stale
  and its route is \<open>r\<close>, so no stale scene with that key is left.
\<close>

theorem C6_revival:
  assumes "NavigationScenesReducer heap scenes nextState prevState = Inr (out, heap')"
    and "prevState \<noteq> Some nextState"
    and "s \<in> set (elems scenes)" and "isStale s"
    and "r \<in> set (children nextState)"
    and "key s = ''scene_'' @ NavigationRoute.key r"
  shows "\<exists>x. filter (\<lambda>y. key y = key s) (elems out) = [x] \<and> \<not> isStale x \<and> route x = r"
proof -
  from assms(1,2) obtain P F S h1 where
    m: "scene_maps heap (elems scenes) nextState prevState = Inr (P, F, S, h1)" and
    out: "elems out = sort_key scene_rank (map (merged P) (map snd S @ map snd F))"
    by (rule reducer_slow_InrD)
  note F = scene_maps_InrD(3) [OF m] and d = scene_maps_InrD(1) [OF m]
  from assms(5) obtain i where i: "i < length (children nextState)" "children nextState ! i = r"
    by (auto simp: in_set_conv_nth)
  let ?c = "\<lparr>scene_oid = heap + i, index = int i, isStale = False, key = sceneKey r, route = r\<rparr>"
  from i have "F ! i = (sceneKey r, ?c)"
    by (simp add: F fresh_entries_nth)
  moreover from i have "i < length F" by (simp add: F fresh_entries_length)
  ultimately have "(sceneKey r, ?c) \<in> set F" by (metis nth_mem)
  then have c: "?c \<in> snd ` set (S @ F)" by force
  from output_unique_key [OF m out c] assms(6)
  have "filter (\<lambda>y. key y = key s) (elems out) = [merged P ?c]"
    by (simp add: sceneKey_def SCENE_KEY_PREFIX_def)
  then show ?thesis
    by (simp add: merged_fields)
qed

theorem C6_revival_witness:
  "NavigationScenesReducer 100
     \<lparr>array_oid = 50, elems =
        [\<lparr>scene_oid = 30, index = 0, isStale = True, key = ''scene_a'', route = \<lparr>route_oid = 1, key = ''a''\<rparr>\<rparr>]\<rparr>
     \<lparr>state_oid = 10, children = [\<lparr>route_oid = 1, key = ''a''\<rparr>]\<rparr>
     None =
   Inr (\<lparr>array_oid = 101, elems =
        [\<lparr>scene_oid = 100, index = 0, isStale = False, key = ''scene_a'', route = \<lparr>route_oid = 1, key = ''a''\<rparr>\<rparr>]\<rparr>, 102) \<and>
   isStale \<lparr>scene_oid = 30, index = 0, isStale = True, key = ''scene_a'', route = \<lparr>route_oid = 1, key = ''a''\<rparr>\<rparr> \<and>
   (\<exists>x. filter (\<lambda>y. key y = ''scene_a'') [\<lparr>scene_oid = 100, index = 0, isStale = False, key = ''scene_a'', route = \<lparr>route_oid = 1, key = ''a''\<rparr>\<rparr>] = [x] \<and>
        \<not> isStale x \<and> route x = \<lparr>route_oid = 1, key = ''a''\<rparr>)"
proof -
  have run: "NavigationScenesReducer 100
     \<lparr>array_oid = 50, elems =
        [\<lparr>scene_oid = 30, index = 0, isStale = True, key = ''scene_a'', route = \<lparr>route_oid = 1, key = ''a''\<rparr>\<rparr>]\<rparr>
     \<lparr>state_oid = 10, children = [\<lparr>route_oid = 1, key = ''a''\<rparr>]\<rparr>
     None =
   Inr (\<lparr>array_oid = 101, elems =
        [\<lparr>scene_oid = 100, index = 0, isStale = False, key = ''scene_a'', route = \<lparr>route_oid = 1, key = ''a''\<rparr>\<rparr>]\<rparr>, 102)"
    by code_simp
  from C6_revival [OF run, of "\<lparr>scene_oid = 30, index = 0, isStale = True, key = ''scene_a'', route = \<lparr>route_oid = 1, key = ''a''\<rparr>\<rparr>" "\<lparr>route_oid = 1, key = ''a''\<rparr>"] show ?thesis
    unfolding run by simp
qed

text \<open>
  On the fast path nothing is revived: the stale scene keyed \<^verbatim>\<open>"scene_a"\<close> is returned
  although the state has a child with the key \<^verbatim>\<open>"a"\<close>.
\<close>

theorem C6_counterexample:
  "NavigationScenesReducer 100
     \<lparr>array_oid = 50, elems =
        [\<lparr>scene_oid = 30, index = 0, isStale = True, key = ''scene_a'', route = \<lparr>route_oid = 1, key = ''a''\<rparr>\<rparr>]\<rparr>
     \<lparr>state_oid = 10, children = [\<lparr>route_oid = 1, key = ''a''\<rparr>]\<rparr>
     (Some \<lparr>state_oid = 10, children = [\<lparr>route_oid = 1, key = ''a''\<rparr>]\<rparr>) =
   Inr (\<lparr>array_oid = 50, elems =
        [\<lparr>scene_oid = 30, index = 0, isStale = True, key = ''scene_a'', route = \<lparr>route_oid = 1, key = ''a''\<rparr>\<rparr>]\<rparr>, 100) \<and>
   filter (\<lambda>y. key y = ''scene_a'' \<and> isStale y)
     [\<lparr>scene_oid = 30, index = 0, isStale = True, key = ''scene_a'', route = \<lparr>route_oid = 1, key = ''a''\<rparr>\<rparr>] \<noteq> []"
  by code_simp

text \<open>
  Claim C7 (identity fast path). For every scene array \<open>S\<close> and every navigation state
  \<open>T\<close>, the call with \<open>T\<close> as both \<^verbatim>\<open>nextState\<close> and \<^verbatim>\<open>prevState\<close> returns
  \<open>S\<close> itself (the same array object, identity token included) and allocates nothing,
  whatever \<open>S\<close> and \<open>T\<close> contain.
\<close>

theorem C7_identity_fast_path:
  "NavigationScenesReducer heap S T (Some T) = Inr (S, heap)"
  by (simp add: NavigationScenesReducer_def)

text \<open>
  Claim C8 (stale lifetime), as amended. The reducer never drops a stale scene by
  itself. If a call that reconciles (slow path) returns a list with a stale scene, and
  that list is passed as the previous scenes of a next call in which neither the children
  of \<^verbatim>\<open>nextState\<close> nor those of \<^verbatim>\<open>prevState\<close> derive the scene's key, then the
  next call's output still contains that scene, the same object. A stale scene stays for
  as long as its key does not come back.
\<close>

theorem C8_stale_lifetime:
  assumes "NavigationScenesReducer heap0 scenes0 nextState1 prevState1 = Inr (out1, heap1)"
    and "prevState1 \<noteq> Some nextState1"
    and "s \<in> set (elems out1)" and "isStale s"
    and "NavigationScenesReducer heap1 out1 nextState2 prevState2 = Inr (out2, heap2)"
    and "key s \<notin> sceneKey ` set (children nextState2)"
    and "\<forall>p. prevState2 = Some p \<longrightarrow> key s \<notin> sceneKey ` set (children p)"
  shows "s \<in> set (elems out2)"
proof (cases "prevState2 = Some nextState2")
  case True
  with assms(3,5) show ?thesis by (simp add: NavigationScenesReducer_def)
next
  case False
  from assms(5) False obtain P F S h1 where
    m: "scene_maps heap1 (elems out1) nextState2 prevState2 = Inr (P, F, S, h1)" and
    out: "elems out2 = sort_key scene_rank (map (merged P) (map snd S @ map snd F))"
    by (rule reducer_slow_InrD)
  have d: "distinct (map key (elems out1))"
    using assms(1,2) by (rule output_keys_distinct)
  have "find (\<lambda>y. key y = key s \<and> isStale y) (rev (elems out1)) = Some s"
    using d assms(3,4) by (rule find_last_distinct)
  with assms(6) have carried: "map_of (carried_stale (elems out1) nextState2) (key s) = Some s"
    by (simp add: carried_stale_lookup)
  have "map_of S (key s) = Some s"
  proof (cases prevState2)
    case None
    with carried show ?thesis by (simp add: scene_maps_InrD(4) [OF m])
  next
    case (Some p)
    with assms(7) have "key s \<notin> sceneKey ` set (children p)" by simp
    with carried Some show ?thesis
      by (simp add: scene_maps_InrD(4) [OF m] prevChildren_forEach_unchanged)
  qed
  then have "(key s, s) \<in> set S" by (rule map_of_SomeD)
  then have c: "s \<in> snd ` set (S @ F)" by force
  have "find (\<lambda>y. key y = key s \<and> True) (rev (elems out1)) = Some s"
    using d assms(3) by (rule find_last_distinct) simp
  then have "map_of P (key s) = Some s"
    by (simp add: scene_maps_InrD(2) [OF m] prevScenes_lookup)
  moreover have "areScenesShallowEqual s s"
    by (simp add: areScenesShallowEqual_def)
  ultimately have "merged P s = s" by (rule merged_reuse)
  with output_unique_key [OF m out c]
  have "filter (\<lambda>y. key y = key s) (elems out2) = [s]" by simp
  then have "s \<in> set (filter (\<lambda>y. key y = key s) (elems out2))" by simp
  then show ?thesis by simp
qed

theorem C8_stale_lifetime_witness:
  "NavigationScenesReducer 100
     \<lparr>array_oid = 50, elems = []\<rparr>
     \<lparr>state_oid = 11, children = [\<lparr>route_oid = 2, key = ''b''\<rparr>]\<rparr>
     (Some \<lparr>state_oid = 10, children = [\<lparr>route_oid = 1, key = ''a''\<rparr>, \<lparr>route_oid = 2, key = ''b''\<rparr>]\<rparr>) =
   Inr (\<lparr>array_oid = 102, elems =
        [\<lparr>scene_oid = 101, index = 0, isStale = True, key = ''scene_a'', route = \<lparr>route_oid = 1, key = ''a''\<rparr>\<rparr>,
         \<lparr>scene_oid = 100, index = 0, isStale = False, key = ''scene_b'', route = \<lparr>route_oid = 2, key = ''b''\<rparr>\<rparr>]\<rparr>, 103) \<and>
   NavigationScenesReducer 103
     \<lparr>array_oid = 102, elems =
        [\<lparr>scene_oid = 101, index = 0, isStale = True, key = ''scene_a'', route = \<lparr>route_oid = 1, key = ''a''\<rparr>\<rparr>,
         \<lparr>scene_oid = 100, index = 0, isStale = False, key = ''scene_b'', route = \<lparr>route_oid = 2, key = ''b''\<rparr>\<rparr>]\<rparr>
     \<lparr>state_oid = 12, children = [\<lparr>route_oid = 2, key = ''b''\<rparr>]\<rparr>
     (Some \<lparr>state_oid = 11, children = [\<lparr>route_oid = 2, key = ''b''\<rparr>]\<rparr>) =
   Inr (\<lparr>array_oid = 104, elems =
        [\<lparr>scene_oid = 101, index = 0, isStale = True, key = ''scene_a'', route = \<lparr>route_oid = 1, key = ''a''\<rparr>\<rparr>,
         \<lparr>scene_oid = 100, index = 0, isStale = False, key = ''scene_b'', route = \<lparr>route_oid = 2, key = ''b''\<rparr>\<rparr>]\<rparr>, 105) \<and>
   ''scene_a'' \<notin> sceneKey ` set [\<lparr>route_oid = 2, key = ''b''\<rparr>] \<and>
   \<lparr>scene_oid = 101, index = 0, isStale = True, key = ''scene_a'', route = \<lparr>route_oid = 1, key = ''a''\<rparr>\<rparr> \<in> set [\<lparr>scene_oid = 101, index = 0, isStale = True, key = ''scene_a'', route = \<lparr>route_oid = 1, key = ''a''\<rparr>\<rparr>,
      \<lparr>scene_oid = 100, index = 0, isStale = False, key = ''scene_b'', route = \<lparr>route_oid = 2, key = ''b''\<rparr>\<rparr>]"
proof -
  have call1: "NavigationScenesReducer 100
     \<lparr>array_oid = 50, elems = []\<rparr>
     \<lparr>state_oid = 11, children = [\<lparr>route_oid = 2, key = ''b''\<rparr>]\<rparr>
     (Some \<lparr>state_oid = 10, children = [\<lparr>route_oid = 1, key = ''a''\<rparr>, \<lparr>route_oid = 2, key = ''b''\<rparr>]\<rparr>) =
   Inr (\<lparr>array_oid = 102, elems =
        [\<lparr>scene_oid = 101, index = 0, isStale = True, key = ''scene_a'', route = \<lparr>route_oid = 1, key = ''a''\<rparr>\<rparr>,
         \<lparr>scene_oid = 100, index = 0, isStale = False, key = ''scene_b'', route = \<lparr>route_oid = 2, key = ''b''\<rparr>\<rparr>]\<rparr>, 103)"
    by code_simp
  have call2: "NavigationScenesReducer 103
     \<lparr>array_oid = 102, elems =
        [\<lparr>scene_oid = 101, index = 0, isStale = True, key = ''scene_a'', route = \<lparr>route_oid = 1, key = ''a''\<rparr>\<rparr>,
         \<lparr>scene_oid = 100, index = 0, isStale = False, key = ''scene_b'', route = \<lparr>route_oid = 2, key = ''b''\<rparr>\<rparr>]\<rparr>
     \<lparr>state_oid = 12, children = [\<lparr>route_oid = 2, key = ''b''\<rparr>]\<rparr>
     (Some \<lparr>state_oid = 11, children = [\<lparr>route_oid = 2, key = ''b''\<rparr>]\<rparr>) =
   Inr (\<lparr>array_oid = 104, elems =
        [\<lparr>scene_oid = 101, index = 0, isStale = True, key = ''scene_a'', route = \<lparr>route_oid = 1, key = ''a''\<rparr>\<rparr>,
         \<lparr>scene_oid = 100, index = 0, isStale = False, key = ''scene_b'', route = \<lparr>route_oid = 2, key = ''b''\<rparr>\<rparr>]\<rparr>, 105)"
    by code_simp
  have absent: "''scene_a'' \<notin> sceneKey ` set [\<lparr>route_oid = 2, key = ''b''\<rparr>]"
    by (simp add: sceneKey_def SCENE_KEY_PREFIX_def)
  from C8_stale_lifetime [OF call1 _ _ _ call2, of "\<lparr>scene_oid = 101, index = 0, isStale = True, key = ''scene_a'', route = \<lparr>route_oid = 1, key = ''a''\<rparr>\<rparr>"] absent call1 call2
  show ?thesis by simp
qed

text \<open>
  The first call makes the scene of route \<^verbatim>\<open>"a"\<close> stale. The second call gets the
  first call's output; its next state and its previous state both have the single child
  \<^verbatim>\<open>"b"\<close>. Its output still holds the stale scene keyed \<^verbatim>\<open>"scene_a"\<close>.
\<close>

theorem C8_counterexample:
  "NavigationScenesReducer 100
     \<lparr>array_oid = 50, elems = []\<rparr>
     \<lparr>state_oid = 11, children = [\<lparr>route_oid = 2, key = ''b''\<rparr>]\<rparr>
     (Some \<lparr>state_oid = 10, children = [\<lparr>route_oid = 1, key = ''a''\<rparr>, \<lparr>route_oid = 2, key = ''b''\<rparr>]\<rparr>) =
   Inr (\<lparr>array_oid = 102, elems =
        [\<lparr>scene_oid = 101, index = 0, isStale = True, key = ''scene_a'', route = \<lparr>route_oid = 1, key = ''a''\<rparr>\<rparr>,
         \<lparr>scene_oid = 100, index = 0, isStale = False, key = ''scene_b'', route = \<lparr>route_oid = 2, key = ''b''\<rparr>\<rparr>]\<rparr>, 103) \<and>
   NavigationScenesReducer 103
     \<lparr>array_oid = 102, elems =
        [\<lparr>scene_oid = 101, index = 0, isStale = True, key = ''scene_a'', route = \<lparr>route_oid = 1, key = ''a''\<rparr>\<rparr>,
         \<lparr>scene_oid = 100, index = 0, isStale = False, key = ''scene_b'', route = \<lparr>route_oid = 2, key = ''b''\<rparr>\<rparr>]\<rparr>
     \<lparr>state_oid = 12, children = [\<lparr>route_oid = 2, key = ''b''\<rparr>]\<rparr>
     (Some \<lparr>state_oid = 11, children = [\<lparr>route_oid = 2, key = ''b''\<rparr>]\<rparr>) =
   Inr (\<lparr>array_oid = 104, elems =
        [\<lparr>scene_oid = 101, index = 0, isStale = True, key = ''scene_a'', route = \<lparr>route_oid = 1, key = ''a''\<rparr>\<rparr>,
         \<lparr>scene_oid = 100, index = 0, isStale = False, key = ''scene_b'', route = \<lparr>route_oid = 2, key = ''b''\<rparr>\<rparr>]\<rparr>, 105) \<and>
   \<lparr>scene_oid = 101, index = 0, isStale = True, key = ''scene_a'', route = \<lparr>route_oid = 1, key = ''a''\<rparr>\<rparr>
     \<in> set [\<lparr>scene_oid = 101, index = 0, isStale = True, key = ''scene_a'', route = \<lparr>route_oid = 1, key = ''a''\<rparr>\<rparr>,
      \<lparr>scene_oid = 100, index = 0, isStale = False, key = ''scene_b'', route = \<lparr>route_oid = 2, key = ''b''\<rparr>\<rparr>]"
  by code_simp

text \<open>
  Claim C9 (output key uniqueness). Every call that returns by the slow path (it neither
  takes the fast path nor fails the invariant) returns a list in which no two scenes
  share a key: when the merge starts the stale map and the fresh map have no key in
  common, each holds one entry per key, and every entry is stored under its scene's key.
\<close>

theorem C9_output_key_uniqueness:
  assumes "NavigationScenesReducer heap scenes nextState prevState = Inr (out, heap')"
    and "prevState \<noteq> Some nextState"
  shows "distinct (map key (elems out)) \<and>
     (\<exists>prevScenes freshScenes staleScenes heap1.
        scene_maps heap (elems scenes) nextState prevState =
          Inr (prevScenes, freshScenes, staleScenes, heap1) \<and>
        fst ` set staleScenes \<inter> fst ` set freshScenes = {} \<and>
        distinct (map fst staleScenes) \<and> distinct (map fst freshScenes) \<and>
        (\<forall>e\<in>set (staleScenes @ freshScenes). key (snd e) = fst e))"
proof -
  from assms obtain P F S h1 where
    m: "scene_maps heap (elems scenes) nextState prevState = Inr (P, F, S, h1)"
    by (rule reducer_slow_InrD)
  have "key (snd e) = fst e" if "e \<in> set (S @ F)" for e
    using that stale_entry [OF m, of "fst e" "snd e"] fresh_entry [OF m, of "fst e" "snd e"]
    by auto
  with output_keys_distinct [OF assms] m stale_fresh_disjoint [OF m] stale_distinct [OF m]
    fresh_distinct [OF m]
  show ?thesis by blast
qed

theorem C9_output_key_uniqueness_witness:
  "NavigationScenesReducer 100 \<lparr>array_oid = 50, elems = []\<rparr>
     \<lparr>state_oid = 11, children = [\<lparr>route_oid = 2, key = ''b''\<rparr>]\<rparr>
     (Some \<lparr>state_oid = 10, children = [\<lparr>route_oid = 1, key = ''a''\<rparr>, \<lparr>route_oid = 2, key = ''b''\<rparr>]\<rparr>) =
   Inr (\<lparr>array_oid = 102, elems =
          [\<lparr>scene_oid = 101, index = 0, isStale = True, key = ''scene_a'', route = \<lparr>route_oid = 1, key = ''a''\<rparr>\<rparr>,
           \<lparr>scene_oid = 100, index = 0, isStale = False, key = ''scene_b'', route = \<lparr>route_oid = 2, key = ''b''\<rparr>\<rparr>]\<rparr>, 103) \<and>
   distinct (map key
     [\<lparr>scene_oid = 101, index = 0, isStale = True, key = ''scene_a'', route = \<lparr>route_oid = 1, key = ''a''\<rparr>\<rparr>,
      \<lparr>scene_oid = 100, index = 0, isStale = False, key = ''scene_b'', route = \<lparr>route_oid = 2, key = ''b''\<rparr>\<rparr>])"
proof -
  have run: "NavigationScenesReducer 100 \<lparr>array_oid = 50, elems = []\<rparr>
     \<lparr>state_oid = 11, children = [\<lparr>route_oid = 2, key = ''b''\<rparr>]\<rparr>
     (Some \<lparr>state_oid = 10, children = [\<lparr>route_oid = 1, key = ''a''\<rparr>, \<lparr>route_oid = 2, key = ''b''\<rparr>]\<rparr>) =
   Inr (\<lparr>array_oid = 102, elems =
          [\<lparr>scene_oid = 101, index = 0, isStale = True, key = ''scene_a'', route = \<lparr>route_oid = 1, key = ''a''\<rparr>\<rparr>,
           \<lparr>scene_oid = 100, index = 0, isStale = False, key = ''scene_b'', route = \<lparr>route_oid = 2, key = ''b''\<rparr>\<rparr>]\<rparr>, 103)"
    by code_simp
  from C9_output_key_uniqueness [OF run] run show ?thesis by simp
qed

text \<open>
  Claim C10 (comparator strictness), as amended. \<open>compareKey k k\<close> is \<open>-1\<close> for every
  string, and \<open>compareScenes\<close> never returns 0. For two scenes with equal index and
  different keys \<open>compareScenes a b = - compareScenes b a\<close>; for two scenes with equal
  index and equal key both orders give \<open>-1\<close>. So the comparator orders a list
  strictly and totally exactly when no two of its scenes agree in both index and key;
  pairwise distinct keys are enough for that, but not necessary.
\<close>

theorem C10_comparator_strictness:
  "compareKey k k = - 1 \<and>
   compareScenes a b \<noteq> 0 \<and>
   (index a = index b \<and> key a \<noteq> key b \<longrightarrow> compareScenes a b = - compareScenes b a) \<and>
   (index a = index b \<and> key a = key b \<longrightarrow> compareScenes a b = - 1 \<and> compareScenes b a = - 1) \<and>
   (strict_total_order_on xs \<longleftrightarrow> distinct (map (\<lambda>s. (index s, key s)) xs)) \<and>
   (distinct (map key xs) \<longrightarrow> strict_total_order_on xs)"
proof -
  have 1: "compareKey k k = - 1" by (simp add: compareKey_def)
  have 2: "compareScenes a b \<noteq> 0"
    using compareScenes_values [of a b] by auto
  have 3: "compareScenes a b = - compareScenes b a" if "index a = index b \<and> key a \<noteq> key b"
  proof -
    from that have "scene_rank a \<noteq> scene_rank b" by (simp add: scene_rank_def)
    then show ?thesis
      using compareScenes_values [of a b] compareScenes_values [of b a]
        compareScenes_pos_iff [of a b] compareScenes_pos_iff [of b a]
      by auto
  qed
  have 4: "compareScenes a b = - 1 \<and> compareScenes b a = - 1" if "index a = index b \<and> key a = key b"
    using that by (simp add: compareScenes_def compareKey_def)
  have 6: "strict_total_order_on xs" if "distinct (map key xs)"
  proof -
    from that have "distinct (map (\<lambda>s. (index s, key s)) xs)"
      by (auto simp: distinct_map inj_on_def)
    then show ?thesis by (simp add: strict_total_order_on_iff)
  qed
  from 1 2 3 4 6 strict_total_order_on_iff [of xs] show ?thesis by blast
qed

theorem C10_comparator_strictness_witness:
  "compareScenes
     \<lparr>scene_oid = 30, index = 0, isStale = False, key = ''scene_a'', route = \<lparr>route_oid = 1, key = ''a''\<rparr>\<rparr>
     \<lparr>scene_oid = 31, index = 0, isStale = False, key = ''scene_b'', route = \<lparr>route_oid = 2, key = ''b''\<rparr>\<rparr> =
   - compareScenes
     \<lparr>scene_oid = 31, index = 0, isStale = False, key = ''scene_b'', route = \<lparr>route_oid = 2, key = ''b''\<rparr>\<rparr>
     \<lparr>scene_oid = 30, index = 0, isStale = False, key = ''scene_a'', route = \<lparr>route_oid = 1, key = ''a''\<rparr>\<rparr> \<and>
   compareScenes
     \<lparr>scene_oid = 30, index = 0, isStale = False, key = ''scene_a'', route = \<lparr>route_oid = 1, key = ''a''\<rparr>\<rparr>
     \<lparr>scene_oid = 32, index = 0, isStale = True, key = ''scene_a'', route = \<lparr>route_oid = 1, key = ''a''\<rparr>\<rparr> = - 1 \<and>
   compareScenes
     \<lparr>scene_oid = 32, index = 0, isStale = True, key = ''scene_a'', route = \<lparr>route_oid = 1, key = ''a''\<rparr>\<rparr>
     \<lparr>scene_oid = 30, index = 0, isStale = False, key = ''scene_a'', route = \<lparr>route_oid = 1, key = ''a''\<rparr>\<rparr> = - 1 \<and>
   distinct (map key
     [\<lparr>scene_oid = 30, index = 0, isStale = False, key = ''scene_a'', route = \<lparr>route_oid = 1, key = ''a''\<rparr>\<rparr>,
      \<lparr>scene_oid = 31, index = 0, isStale = False, key = ''scene_b'', route = \<lparr>route_oid = 2, key = ''b''\<rparr>\<rparr>]) \<and>
   strict_total_order_on
     [\<lparr>scene_oid = 30, index = 0, isStale = False, key = ''scene_a'', route = \<lparr>route_oid = 1, key = ''a''\<rparr>\<rparr>,
      \<lparr>scene_oid = 31, index = 0, isStale = False, key = ''scene_b'', route = \<lparr>route_oid = 2, key = ''b''\<rparr>\<rparr>] \<and>
   \<not> strict_total_order_on
     [\<lparr>scene_oid = 30, index = 0, isStale = False, key = ''scene_a'', route = \<lparr>route_oid = 1, key = ''a''\<rparr>\<rparr>,
      \<lparr>scene_oid = 32, index = 0, isStale = True, key = ''scene_a'', route = \<lparr>route_oid = 1, key = ''a''\<rparr>\<rparr>]"
  using
    C10_comparator_strictness [of "''scene_a''"
      "\<lparr>scene_oid = 30, index = 0, isStale = False, key = ''scene_a'', route = \<lparr>route_oid = 1, key = ''a''\<rparr>\<rparr>"
      "\<lparr>scene_oid = 31, index = 0, isStale = False, key = ''scene_b'', route = \<lparr>route_oid = 2, key = ''b''\<rparr>\<rparr>"
      "[\<lparr>scene_oid = 30, index = 0, isStale = False, key = ''scene_a'', route = \<lparr>route_oid = 1, key = ''a''\<rparr>\<rparr>,
      \<lparr>scene_oid = 31, index = 0, isStale = False, key = ''scene_b'', route = \<lparr>route_oid = 2, key = ''b''\<rparr>\<rparr>]"]
    C10_comparator_strictness [of "''scene_a''"
      "\<lparr>scene_oid = 30, index = 0, isStale = False, key = ''scene_a'', route = \<lparr>route_oid = 1, key = ''a''\<rparr>\<rparr>"
      "\<lparr>scene_oid = 32, index = 0, isStale = True, key = ''scene_a'', route = \<lparr>route_oid = 1, key = ''a''\<rparr>\<rparr>"
      "[\<lparr>scene_oid = 30, index = 0, isStale = False, key = ''scene_a'', route = \<lparr>route_oid = 1, key = ''a''\<rparr>\<rparr>,
      \<lparr>scene_oid = 32, index = 0, isStale = True, key = ''scene_a'', route = \<lparr>route_oid = 1, key = ''a''\<rparr>\<rparr>]"]
  by simp

text \<open>
  Two scenes with the same key and different indices: the comparator orders the list
  strictly and totally, though its keys are not pairwise distinct.
\<close>

theorem C10_counterexample:
  "strict_total_order_on
     [\<lparr>scene_oid = 30, index = 0, isStale = False, key = ''scene_a'', route = \<lparr>route_oid = 1, key = ''a''\<rparr>\<rparr>,
      \<lparr>scene_oid = 33, index = 1, isStale = True, key = ''scene_a'', route = \<lparr>route_oid = 1, key = ''a''\<rparr>\<rparr>] \<and>
   \<not> distinct (map key
     [\<lparr>scene_oid = 30, index = 0, isStale = False, key = ''scene_a'', route = \<lparr>route_oid = 1, key = ''a''\<rparr>\<rparr>,
      \<lparr>scene_oid = 33, index = 1, isStale = True, key = ''scene_a'', route = \<lparr>route_oid = 1, key = ''a''\<rparr>\<rparr>])"
  by (simp add: strict_total_order_on_def compareScenes_def compareKey_def)

section \<open>Further properties\<close>

text \<open>
  A changed scene is rebuilt. In a call that returns by the slow path, a
  candidate handed to the merge is itself the one scene of the output with its key,
  unless the last previous scene with that key is shallow-equal to it. In the second
  example of the specification the scene of route \<^verbatim>\<open>"b"\<close> moves from index 1 to
  index 0, so the output holds the newly built scene (identity 103), not the previous
  object (identity 101).
\<close>

theorem changed_scene_is_rebuilt:
  assumes "NavigationScenesReducer heap scenes nextState prevState = Inr (out, heap')"
    and "prevState \<noteq> Some nextState"
    and "scene_maps heap (elems scenes) nextState prevState =
           Inr (prevScenes, freshScenes, staleScenes, heap1)"
    and "c \<in> snd ` set (staleScenes @ freshScenes)"
    and "\<forall>p. find (\<lambda>s. key s = key c) (rev (elems scenes)) = Some p \<longrightarrow>
           \<not> areScenesShallowEqual p c"
  shows "filter (\<lambda>y. key y = key c) (elems out) = [c]"
proof -
  from assms(1,2) obtain P F S h1 where
    m: "scene_maps heap (elems scenes) nextState prevState = Inr (P, F, S, h1)" and
    out: "elems out = sort_key scene_rank (map (merged P) (map snd S @ map snd F))"
    by (rule reducer_slow_InrD)
  from m assms(3) have eq: "P = prevScenes" "F = freshScenes" "S = staleScenes" by simp_all
  from assms(4) have c: "c \<in> snd ` set (S @ F)" by (simp add: eq)
  have "merged P c = c"
    using merged_cases [of P c] assms(5)
    by (auto simp: scene_maps_InrD(2) [OF m] prevScenes_lookup)
  with output_unique_key [OF m out c] show ?thesis by simp
qed

theorem changed_scene_is_rebuilt_example:
  "NavigationScenesReducer 103
     \<lparr>array_oid = 102, elems =
        [\<lparr>scene_oid = 100, index = 0, isStale = False, key = ''scene_a'', route = \<lparr>route_oid = 1, key = ''a''\<rparr>\<rparr>,
         \<lparr>scene_oid = 101, index = 1, isStale = False, key = ''scene_b'', route = \<lparr>route_oid = 2, key = ''b''\<rparr>\<rparr>]\<rparr>
     \<lparr>state_oid = 11, children = [\<lparr>route_oid = 2, key = ''b''\<rparr>]\<rparr>
     (Some \<lparr>state_oid = 10, children = [\<lparr>route_oid = 1, key = ''a''\<rparr>, \<lparr>route_oid = 2, key = ''b''\<rparr>]\<rparr>) =
   Inr (\<lparr>array_oid = 105, elems =
        [\<lparr>scene_oid = 104, index = 0, isStale = True, key = ''scene_a'', route = \<lparr>route_oid = 1, key = ''a''\<rparr>\<rparr>,
         \<lparr>scene_oid = 103, index = 0, isStale = False, key = ''scene_b'', route = \<lparr>route_oid = 2, key = ''b''\<rparr>\<rparr>]\<rparr>, 106) \<and>
   \<not> areScenesShallowEqual
     \<lparr>scene_oid = 101, index = 1, isStale = False, key = ''scene_b'', route = \<lparr>route_oid = 2, key = ''b''\<rparr>\<rparr>
     \<lparr>scene_oid = 103, index = 0, isStale = False, key = ''scene_b'', route = \<lparr>route_oid = 2, key = ''b''\<rparr>\<rparr> \<and>
   filter (\<lambda>y. key y = ''scene_b'')
     [\<lparr>scene_oid = 104, index = 0, isStale = True, key = ''scene_a'', route = \<lparr>route_oid = 1, key = ''a''\<rparr>\<rparr>,
      \<lparr>scene_oid = 103, index = 0, isStale = False, key = ''scene_b'', route = \<lparr>route_oid = 2, key = ''b''\<rparr>\<rparr>] =
     [\<lparr>scene_oid = 103, index = 0, isStale = False, key = ''scene_b'', route = \<lparr>route_oid = 2, key = ''b''\<rparr>\<rparr>]"
proof -
  have run: "NavigationScenesReducer 103
     \<lparr>array_oid = 102, elems =
        [\<lparr>scene_oid = 100, index = 0, isStale = False, key = ''scene_a'', route = \<lparr>route_oid = 1, key = ''a''\<rparr>\<rparr>,
         \<lparr>scene_oid = 101, index = 1, isStale = False, key = ''scene_b'', route = \<lparr>route_oid = 2, key = ''b''\<rparr>\<rparr>]\<rparr>
     \<lparr>state_oid = 11, children = [\<lparr>route_oid = 2, key = ''b''\<rparr>]\<rparr>
     (Some \<lparr>state_oid = 10, children = [\<lparr>route_oid = 1, key = ''a''\<rparr>, \<lparr>route_oid = 2, key = ''b''\<rparr>]\<rparr>) =
   Inr (\<lparr>array_oid = 105, elems =
        [\<lparr>scene_oid = 104, index = 0, isStale = True, key = ''scene_a'', route = \<lparr>route_oid = 1, key = ''a''\<rparr>\<rparr>,
         \<lparr>scene_oid = 103, index = 0, isStale = False, key = ''scene_b'', route = \<lparr>route_oid = 2, key = ''b''\<rparr>\<rparr>]\<rparr>, 106)"
    by code_simp
  have maps: "scene_maps 103
     (elems \<lparr>array_oid = 102, elems =
        [\<lparr>scene_oid = 100, index = 0, isStale = False, key = ''scene_a'', route = \<lparr>route_oid = 1, key = ''a''\<rparr>\<rparr>,
         \<lparr>scene_oid = 101, index = 1, isStale = False, key = ''scene_b'', route = \<lparr>route_oid = 2, key = ''b''\<rparr>\<rparr>]\<rparr>)
     \<lparr>state_oid = 11, children = [\<lparr>route_oid = 2, key = ''b''\<rparr>]\<rparr>
     (Some \<lparr>state_oid = 10, children = [\<lparr>route_oid = 1, key = ''a''\<rparr>, \<lparr>route_oid = 2, key = ''b''\<rparr>]\<rparr>) =
   Inr ([(''scene_a'', \<lparr>scene_oid = 100, index = 0, isStale = False, key = ''scene_a'', route = \<lparr>route_oid = 1, key = ''a''\<rparr>\<rparr>),
         (''scene_b'', \<lparr>scene_oid = 101, index = 1, isStale = False, key = ''scene_b'', route = \<lparr>route_oid = 2, key = ''b''\<rparr>\<rparr>)],
        [(''scene_b'', \<lparr>scene_oid = 103, index = 0, isStale = False, key = ''scene_b'', route = \<lparr>route_oid = 2, key = ''b''\<rparr>\<rparr>)],
        [(''scene_a'', \<lparr>scene_oid = 104, index = 0, isStale = True, key = ''scene_a'', route = \<lparr>route_oid = 1, key = ''a''\<rparr>\<rparr>)], 105)"
    by code_simp
  have ne: "\<not> areScenesShallowEqual
     \<lparr>scene_oid = 101, index = 1, isStale = False, key = ''scene_b'', route = \<lparr>route_oid = 2, key = ''b''\<rparr>\<rparr>
     \<lparr>scene_oid = 103, index = 0, isStale = False, key = ''scene_b'', route = \<lparr>route_oid = 2, key = ''b''\<rparr>\<rparr>"
    by (simp add: areScenesShallowEqual_def)
  from changed_scene_is_rebuilt [OF run _ maps, of "\<lparr>scene_oid = 103, index = 0, isStale = False, key = ''scene_b'', route = \<lparr>route_oid = 2, key = ''b''\<rparr>\<rparr>"] run ne
  show ?thesis by simp
qed

text \<open>
  The first reconciliation. With no previous scenes and no previous state, the
  children \<^verbatim>\<open>"a"\<close> and \<^verbatim>\<open>"b"\<close> give the scenes \<^verbatim>\<open>"scene_a"\<close> at index 0 and
  \<^verbatim>\<open>"scene_b"\<close> at index 1, neither of them stale, in a newly allocated array.
\<close>

theorem first_reconciliation_example:
  "NavigationScenesReducer 100
     \<lparr>array_oid = 50, elems = []\<rparr>
     \<lparr>state_oid = 10, children = [\<lparr>route_oid = 1, key = ''a''\<rparr>, \<lparr>route_oid = 2, key = ''b''\<rparr>]\<rparr>
     None =
   Inr (\<lparr>array_oid = 102, elems =
        [\<lparr>scene_oid = 100, index = 0, isStale = False, key = ''scene_a'', route = \<lparr>route_oid = 1, key = ''a''\<rparr>\<rparr>,
         \<lparr>scene_oid = 101, index = 1, isStale = False, key = ''scene_b'', route = \<lparr>route_oid = 2, key = ''b''\<rparr>\<rparr>]\<rparr>, 103)"
  by code_simp

end
